theory Spec2Isabelle
  imports Complex_Main "HOL-Library.Sublist" "HOL-Library.Multiset"
begin

section \<open>Python strings\<close>

text \<open>
  A Python \<open>str\<close> is modelled as a \<open>string\<close>; a \<open>char\<close> stands for a code point
  below 256 (ASCII and Latin-1). On that range \<open>str.lower\<close> maps \<open>A..Z\<close> and the
  upper-case Latin-1 letters (0xC0..0xDE without the multiplication sign 0xD7) to the
  letter 32 places further, and \<open>str.isspace\<close> holds of 9..13, 28..32, 0x85 and 0xA0.
\<close>

definition lower_char :: "char \<Rightarrow> char" where
  "lower_char c =
     (let n = (of_char c :: nat)
      in if (65 \<le> n \<and> n \<le> 90) \<or> (192 \<le> n \<and> n \<le> 222 \<and> n \<noteq> 215)
         then char_of (n + 32) else c)"

definition lower :: "string \<Rightarrow> string" where
  "lower s = map lower_char s"

definition isspace :: "char \<Rightarrow> bool" where
  "isspace c =
     (let n = (of_char c :: nat)
      in (9 \<le> n \<and> n \<le> 13) \<or> (28 \<le> n \<and> n \<le> 32) \<or> n = 133 \<or> n = 160)"

definition strip :: "string \<Rightarrow> string" where
  "strip s = rev (dropWhile isspace (rev (dropWhile isspace s)))"

text \<open>\<open>s.startswith(sub)\<close> and the operator \<open>sub in s\<close>.\<close>

fun startswith :: "string \<Rightarrow> string \<Rightarrow> bool" where
  "startswith s [] = True"
| "startswith [] (p # ps) = False"
| "startswith (c # cs) (p # ps) = (c = p \<and> startswith cs ps)"

fun str_in :: "string \<Rightarrow> string \<Rightarrow> bool" where
  "str_in sub [] = (sub = [])"
| "str_in sub (c # cs) = (startswith (c # cs) sub \<or> str_in sub cs)"

text \<open>\<open>str(n)\<close> of an integer: decimal digits, with a minus sign when negative.\<close>

fun str_nat :: "nat \<Rightarrow> string" where
  "str_nat n =
     (if n < 10 then [char_of (48 + n)]
      else str_nat (n div 10) @ [char_of (48 + n mod 10)])"

definition str_int :: "int \<Rightarrow> string" where
  "str_int i = (if i < 0 then CHR ''-'' # str_nat (nat (- i)) else str_nat (nat i))"

text \<open>
  The character class \<open>[a-z0-9]\<close>, \<open>re.sub(r"[^a-z0-9]", "", n)\<close>, and
  \<open>ALLOWED_RE.match(n)\<close> for \<open>ALLOWED_RE = re.compile(r"^[a-z0-9]+$")\<close>: in Python
  \<open>$\<close> matches at the end of the string and also just before a newline that ends it.
\<close>

definition allowed_char :: "char \<Rightarrow> bool" where
  "allowed_char c =
     (let n = (of_char c :: nat) in (97 \<le> n \<and> n \<le> 122) \<or> (48 \<le> n \<and> n \<le> 57))"

definition re_sub_disallowed :: "string \<Rightarrow> string" where
  "re_sub_disallowed n = filter allowed_char n"

definition ALLOWED_RE_match :: "string \<Rightarrow> bool" where
  "ALLOWED_RE_match n =
     (let s = (if n \<noteq> [] \<and> last n = CHR 0x0A then butlast n else n)
      in s \<noteq> [] \<and> list_all allowed_char s)"

section \<open>Exceptions, responses, outcomes, effects\<close>

text \<open>
  The exceptions a check can meet: \<open>asyncio.CancelledError\<close>, which is a
  \<open>BaseException\<close> (Python 3.8 and later) and so passes an \<open>except Exception\<close>
  handler, and the subclasses of \<open>Exception\<close>, tagged with \<open>type(e).__name__\<close>.
\<close>

datatype exn = CancelledError | Exception string

text \<open>
  What \<open>session.get(url, allow_redirects=True)\<close> gives: it raises, or it yields a
  response with its final URL, its status code and a body whose reading
  (\<open>await resp.text()\<close>) raises or returns the text.
\<close>

record response =
  url :: string
  status :: int
  resp_text :: "exn + string"

datatype get_result = GetRaises exn | GetOk response

text \<open>The tuple \<open>(status, http_status, note)\<close> a check returns.\<close>

type_synonym outcome = "string \<times> int option \<times> string"

text \<open>
  Observable effects, in the order they happen: a line printed with \<open>print\<close>, a line
  printed with \<open>end="\r"\<close>, a sleep, the opening of a \<open>ClientSession\<close>, a GET request.
\<close>

datatype event =
    Print string
  | PrintCR string
  | Sleep real
  | OpenSession
  | HttpGet string

section \<open>The checker\<close>

definition CHECK_URL :: "string \<Rightarrow> string" where
  "CHECK_URL name = ''https://steamcommunity.com/id/'' @ name @ ''/''"

record checker =
  timeout :: int
  retries :: int
  delay :: real
  concurrency :: int
  checked :: nat
  available :: nat
  start_time :: "real option"
  total_to_check :: nat

text \<open>\<open>SteamChecker.__init__\<close>; the delay, a float, is taken as a real number.\<close>

definition SteamChecker_init :: "int \<Rightarrow> int \<Rightarrow> real \<Rightarrow> int \<Rightarrow> checker" where
  "SteamChecker_init timeout_seconds retries' delay' concurrency' =
     \<lparr> timeout = timeout_seconds,
       retries = max 0 retries',
       delay = max 0 delay',
       concurrency = max 1 concurrency',
       checked = 0,
       available = 0,
       start_time = None,
       total_to_check = 0 \<rparr>"

definition markers :: "string list" where
  "markers = [''avatar'', ''profile_header'', ''steamcommunity.com'', ''steamid'']"

text \<open>
  \<open>_check_once\<close>: \<open>session\<close> is what the GET of a URL gives at this attempt. The result
  is the outcome, or the exception that leaves the function; the events are the
  requests made.
\<close>

definition check_once :: "(string \<Rightarrow> get_result) \<Rightarrow> string \<Rightarrow> (exn + outcome) \<times> event list" where
  "check_once session name =
     (let url' = CHECK_URL name in
      ((case session url' of
         GetRaises CancelledError \<Rightarrow> Inl CancelledError
       | GetRaises (Exception kind) \<Rightarrow> Inr (''unknown'', None, ''exception:'' @ kind)
       | GetOk resp \<Rightarrow>
           (let final_url = url resp; status_code = status resp in
            if str_in ''/profiles/'' final_url
            then Inr (''taken'', Some status_code, ''redirect_to_profiles'')
            else
              (case resp_text resp of
                 Inl CancelledError \<Rightarrow> Inl CancelledError
               | Inl (Exception kind) \<Rightarrow> Inr (''unknown'', Some status_code, ''unicode_error'')
               | Inr body \<Rightarrow>
                   (let low = lower body in
                    if str_in ''could not be found'' low \<and> length name > 2
                    then Inr (''available'', Some status_code, ''not_found_text'')
                    else if list_ex (\<lambda>m. str_in m low) markers
                    then Inr (''taken'', Some status_code, ''profile_markers'')
                    else Inr (''taken'', Some status_code, ''fallback_taken''))))),
       [HttpGet url']))"

text \<open>
  \<open>_check_with_retries\<close>: the loop \<open>for attempt in range(1, self.retries + 2)\<close> runs
  over the list of attempt numbers; \<open>session attempt\<close> is what the network gives at
  that attempt. The base delay 0.6 is taken as the real number 3/5.
\<close>

fun retry_loop ::
  "(nat \<Rightarrow> string \<Rightarrow> get_result) \<Rightarrow> int \<Rightarrow> string \<Rightarrow> nat list \<Rightarrow> real \<Rightarrow> outcome
     \<Rightarrow> (exn + outcome) \<times> event list" where
  "retry_loop session r name [] backoff last0 = (Inr last0, [])"
| "retry_loop session r name (attempt # rest) backoff last0 =
     (case check_once (session attempt) name of
        (Inl e, evs) \<Rightarrow> (Inl e, evs)
      | (Inr last1, evs) \<Rightarrow>
          if fst last1 \<noteq> ''unknown'' then (Inr last1, evs)
          else if int attempt \<le> r
          then (case retry_loop session r name rest (backoff * 2) last1 of
                  (res, evs') \<Rightarrow> (res, evs @ Sleep backoff # evs'))
          else (case retry_loop session r name rest backoff last1 of
                  (res, evs') \<Rightarrow> (res, evs @ evs')))"

definition check_with_retries ::
  "(nat \<Rightarrow> string \<Rightarrow> get_result) \<Rightarrow> checker \<Rightarrow> string \<Rightarrow> (exn + outcome) \<times> event list" where
  "check_with_retries session self name =
     retry_loop session (retries self) name [1..<nat (retries self + 2)] (6 / 10)
       (''unknown'', None, ''no_attempt'')"

text \<open>The requests and the sleeps of a trace.\<close>

fun is_get :: "event \<Rightarrow> bool" where
  "is_get (HttpGet u) = True"
| "is_get e = False"

fun sleep_of :: "event \<Rightarrow> real list" where
  "sleep_of (Sleep d) = [d]"
| "sleep_of e = []"

definition requests :: "event list \<Rightarrow> nat" where
  "requests evs = length (filter is_get evs)"

definition sleeps :: "event list \<Rightarrow> real list" where
  "sleeps evs = concat (map sleep_of evs)"

section \<open>Files and the environment\<close>

text \<open>
  \<open>results.csv\<close> is held as the rows the \<open>csv\<close> module writes and reads back (each
  row a list of fields; quoting and line ends are the module's business), the two text
  files as their lines; \<open>None\<close> is a file that does not exist. The trace collects
  the events of the run. Failures of the file system itself are not modelled.
\<close>

record world =
  results_csv :: "string list list option"
  available_txt :: "string list option"
  custom_txt :: "string list option"
  trace :: "event list"

text \<open>
  What the program reads from outside: the answer of the network to the GET of a URL
  (by the number of checks completed so far and the attempt number), the clock as
  \<open>now_ts()\<close> and \<open>time.time()\<close> (by the number of checks completed so far),
  \<open>strftime("%H:%M:%S", gmtime(t))\<close>, which raises when \<open>t\<close> is out of the platform's
  range, the formatting of a float in an f-string, and, for the worker pool, which of
  the checks in flight resolves next.
\<close>

record env =
  http_get :: "nat \<Rightarrow> nat \<Rightarrow> string \<Rightarrow> get_result"
  now_ts :: "nat \<Rightarrow> string"
  time_time :: "nat \<Rightarrow> real"
  strftime_gmtime :: "real \<Rightarrow> exn + string"
  str_float :: "real \<Rightarrow> string"
  pick :: "nat \<Rightarrow> nat"

definition header :: "string list" where
  "header = [''username'', ''status'', ''http_status'', ''timestamp'', ''note'']"

definition ensure_files :: "world \<Rightarrow> world" where
  "ensure_files w =
     w\<lparr> results_csv := (case results_csv w of None \<Rightarrow> Some [header] | Some rows \<Rightarrow> Some rows),
        available_txt := (case available_txt w of None \<Rightarrow> Some [] | Some ls \<Rightarrow> Some ls),
        custom_txt := (case custom_txt w of None \<Rightarrow> Some [] | Some ls \<Rightarrow> Some ls) \<rparr>"

text \<open>
  \<open>row.get("username")\<close> on a row of \<open>csv.DictReader\<close>: the row is
  \<open>dict(zip(fieldnames, row))\<close>, where a later column of the same name wins, and the
  field names beyond the row's length are set to \<open>None\<close>.
\<close>

definition row_get :: "string list \<Rightarrow> string list \<Rightarrow> string \<Rightarrow> string option" where
  "row_get fieldnames row key =
     (if key \<in> set (drop (length row) fieldnames) then None
      else map_of (rev (zip fieldnames row)) key)"

text \<open>
  The loop over the \<open>DictReader\<close>: the first row gives the field names, empty rows are
  skipped, and each stripped non-empty user name is added.
\<close>

definition seen_of_rows :: "string list list \<Rightarrow> string list" where
  "seen_of_rows rows =
     (case rows of
        [] \<Rightarrow> []
      | fieldnames # rest \<Rightarrow>
          concat (map (\<lambda>row.
              (let uname = strip (case row_get fieldnames row ''username'' of
                                    None \<Rightarrow> [] | Some u \<Rightarrow> u)
               in if uname \<noteq> [] then [uname] else []))
            (filter (\<lambda>row. row \<noteq> []) rest)))"

text \<open>The fallback loop over the raw lines: \<open>ln.split(",")[0].strip()\<close>.\<close>

definition seen_of_lines :: "string list \<Rightarrow> string list" where
  "seen_of_lines lines =
     concat (map (\<lambda>ln.
         if strip ln \<noteq> [] then
           (let first = strip (takeWhile (\<lambda>c. c \<noteq> CHR '','') ln)
            in if first \<noteq> [] \<and> first \<noteq> ''username'' then [first] else [])
         else [])
       lines)"

text \<open>
  What reading \<open>path\<close> through \<open>csv\<close> gives: all its rows, or an exception of the
  reader after some rows, and then the raw lines the fallback reads.
\<close>

datatype csv_read = CsvRows "string list list" | CsvError "string list list" "string list"

definition load_seen_from_csv :: "csv_read option \<Rightarrow> string set" where
  "load_seen_from_csv path =
     (case path of
        None \<Rightarrow> {}
      | Some (CsvRows rows) \<Rightarrow> set (seen_of_rows rows)
      | Some (CsvError rows lines) \<Rightarrow> set (seen_of_rows rows) \<union> set (seen_of_lines lines))"

text \<open>The files of the model are those the reader reads without an exception.\<close>

definition read_csv :: "string list list option \<Rightarrow> csv_read option" where
  "read_csv f = map_option CsvRows f"

definition append_to :: "'a list option \<Rightarrow> 'a \<Rightarrow> 'a list option" where
  "append_to f x = (case f of None \<Rightarrow> Some [x] | Some xs \<Rightarrow> Some (xs @ [x]))"

definition write_result ::
  "env \<Rightarrow> checker \<Rightarrow> world \<Rightarrow> string \<Rightarrow> string \<Rightarrow> int option \<Rightarrow> string \<Rightarrow> world" where
  "write_result e self w username status' http_status note =
     (let ts = now_ts e (checked self);
          row = [username, status',
                 (case http_status of None \<Rightarrow> [] | Some c \<Rightarrow> str_int c), ts, note];
          w1 = w\<lparr> results_csv := append_to (results_csv w) row \<rparr>
      in if status' = ''available''
         then w1\<lparr> available_txt := append_to (available_txt w1) username \<rparr>
         else w1)"

section \<open>Progress and dispatch\<close>

definition status_line :: "checker \<Rightarrow> string \<Rightarrow> string \<Rightarrow> string" where
  "status_line self elapsed_s remaining_s =
     ''[Status] Checked '' @ str_nat (checked self) @ ''/'' @ str_nat (total_to_check self)
       @ '' | Available '' @ str_nat (available self)
       @ '' | Elapsed '' @ elapsed_s @ '' | ETA '' @ remaining_s"

text \<open>
  \<open>_update_title\<close>. The subtraction raises \<open>TypeError\<close> while \<open>start_time\<close> is
  \<open>None\<close>. The \<open>print\<close> call stands in the \<open>except\<close> block of the source.
\<close>

definition update_title :: "env \<Rightarrow> checker \<Rightarrow> (exn + unit) \<times> event list" where
  "update_title e self =
     (case start_time self of
        None \<Rightarrow> (Inl (Exception ''TypeError''), [])
      | Some st \<Rightarrow>
          (let elapsed = time_time e (checked self) - st in
           case strftime_gmtime e elapsed of
             Inl ex \<Rightarrow> (Inl ex, [])
           | Inr elapsed_s \<Rightarrow>
               (let avg = elapsed / real (max 1 (checked self));
                    remaining = avg * real_of_int (max 0 (int (total_to_check self) - int (checked self)))
                in case strftime_gmtime e remaining of
                     Inr remaining_s \<Rightarrow> (Inr (), [])
                   | Inl CancelledError \<Rightarrow> (Inl CancelledError, [])
                   | Inl (Exception kind) \<Rightarrow>
                       (Inr (), [PrintCR (status_line self elapsed_s ''...'')]))))"

definition progress_prefix :: "checker \<Rightarrow> string" where
  "progress_prefix self =
     ''['' @ str_nat (checked self) @ ''/'' @ str_nat (total_to_check self) @ ''] ''"

text \<open>
  The body of the sequential loop, which is also the body of \<open>worker\<close> after it has
  taken a name from the queue: check, count, print, write, report, sleep.
\<close>

definition handle_name :: "env \<Rightarrow> checker \<Rightarrow> world \<Rightarrow> string \<Rightarrow> (exn + unit) \<times> checker \<times> world" where
  "handle_name e self w name =
     (case check_with_retries (http_get e (checked self)) self name of
        (Inl ex, evs) \<Rightarrow> (Inl ex, self, w\<lparr> trace := trace w @ evs \<rparr>)
      | (Inr (status', http_status, note), evs) \<Rightarrow>
          (let self1 = self\<lparr> checked := checked self + 1 \<rparr>;
               self2 = (if status' = ''available''
                        then self1\<lparr> available := available self1 + 1 \<rparr> else self1);
               line = (if status' = ''available''
                       then progress_prefix self2 @ ''AVAILABLE: '' @ name
                       else if status' = ''taken''
                       then progress_prefix self2 @ ''taken: '' @ name
                       else progress_prefix self2 @ ''unknown/error: '' @ name
                              @ '' ('' @ note @ '')'');
               w1 = w\<lparr> trace := trace w @ evs @ [Print line] \<rparr>;
               w2 = write_result e self2 w1 name status' http_status note
           in case update_title e self2 of
                (Inl ex, evs2) \<Rightarrow> (Inl ex, self2, w2\<lparr> trace := trace w2 @ evs2 \<rparr>)
              | (Inr u, evs2) \<Rightarrow>
                  (Inr (), self2,
                   w2\<lparr> trace := trace w2 @ evs2
                          @ (if delay self2 \<noteq> 0 then [Sleep (delay self2)] else []) \<rparr>)))"

text \<open>The sequential mode: \<open>for name in names\<close>, left at the first exception.\<close>

fun seq_loop :: "env \<Rightarrow> checker \<Rightarrow> world \<Rightarrow> string list \<Rightarrow> (exn + unit) \<times> checker \<times> world" where
  "seq_loop e self w [] = (Inr (), self, w)"
| "seq_loop e self w (name # names) =
     (case handle_name e self w name of
        (Inl ex, self', w') \<Rightarrow> (Inl ex, self', w')
      | (Inr u, self', w') \<Rightarrow> seq_loop e self' w' names)"

text \<open>How a run ends: it returns, an exception leaves it, or it waits for ever.\<close>

datatype run_result = Returns | Raises exn | Hangs

definition remove_nth :: "nat \<Rightarrow> 'a list \<Rightarrow> 'a list" where
  "remove_nth i xs = take i xs @ drop (Suc i) xs"

text \<open>
  The pooled mode. The queue holds the names not yet taken (the stop markers behind
  them are left implicit); \<open>inflight\<close> holds the name each live worker is checking.
  The workers start in turn and each takes a name before any check resolves; then
  the environment picks the check that resolves next, that worker handles it with the
  loop body and takes the next name, or stops at a stop marker. A worker that an
  exception leaves never marks its item done, so \<open>q.join()\<close> waits for ever, while
  the other workers go on. The events of one check are logged together when it resolves.
\<close>

function pool_loop ::
  "env \<Rightarrow> checker \<Rightarrow> world \<Rightarrow> string list \<Rightarrow> string list \<Rightarrow> bool \<Rightarrow> nat
     \<Rightarrow> run_result \<times> checker \<times> world" where
  "pool_loop e self w queue inflight died step =
     (if inflight = [] then ((if died then Hangs else if queue = [] then Returns else Hangs), self, w)
      else
        (let i = pick e step mod length inflight in
         case handle_name e self w (inflight ! i) of
           (Inl ex, self', w') \<Rightarrow>
             pool_loop e self' w' queue (remove_nth i inflight) True (Suc step)
         | (Inr u, self', w') \<Rightarrow>
             (case queue of
                [] \<Rightarrow> pool_loop e self' w' [] (remove_nth i inflight) died (Suc step)
              | n # queue' \<Rightarrow> pool_loop e self' w' queue' (inflight[i := n]) died (Suc step))))"
  by pat_completeness auto
termination
proof -
  have shrink: "length (remove_nth (k mod length xs) xs) < length xs"
    if "xs \<noteq> []" for xs :: "string list" and k :: nat
  proof -
    from that have "k mod length xs < length xs"
      by simp
    then show ?thesis
      by (simp add: remove_nth_def)
  qed
  show ?thesis
    by (relation "measure (\<lambda>(e, self, w, queue, inflight, died, step). length queue + length inflight)")
       (auto simp: shrink)
qed

section \<open>A run\<close>

text \<open>Lines 174 to 177 of \<open>run_check_list\<close>: normalise, drop other characters, filter.\<close>

definition sanitize :: "string list \<Rightarrow> string list" where
  "sanitize names =
     (let names1 = map (\<lambda>n. strip (lower n)) (filter (\<lambda>n. n \<noteq> []) names);
          names2 = map re_sub_disallowed names1
      in filter (\<lambda>n. n \<noteq> [] \<and> ALLOWED_RE_match n \<and> length n > 2) names2)"

text \<open>Lines 174 to 185: the names after sanitising, resume and the limit.\<close>

definition filter_names :: "world \<Rightarrow> string list \<Rightarrow> int \<Rightarrow> bool \<Rightarrow> string list" where
  "filter_names w names max_checks resume =
     (let names1 = sanitize names;
          names2 = (if resume
                    then (let seen = load_seen_from_csv (read_csv (results_csv w))
                          in filter (\<lambda>n. n \<notin> seen) names1)
                    else names1)
      in if max_checks > 0 then take (nat max_checks) names2 else names2)"

definition queued_line :: "env \<Rightarrow> checker \<Rightarrow> string" where
  "queued_line e self =
     ''[+] '' @ str_nat (total_to_check self) @ '' names queued for checking. concurrency=''
       @ str_int (concurrency self) @ '', delay='' @ str_float e (delay self) @ ''s''"

text \<open>
  \<open>run_check_list\<close>. \<open>asyncio.Semaphore\<close> raises \<open>ValueError\<close> on a negative value,
  before the session is opened.
\<close>

definition run_check_list ::
  "env \<Rightarrow> checker \<Rightarrow> world \<Rightarrow> string list \<Rightarrow> int \<Rightarrow> bool \<Rightarrow> run_result \<times> checker \<times> world" where
  "run_check_list e self w names max_checks resume =
     (let names' = filter_names w names max_checks resume;
          self1 = self\<lparr> total_to_check := length names' \<rparr>
      in if total_to_check self1 = 0
         then (Returns, self1,
               w\<lparr> trace := trace w @ [Print ''[!] No names to check (after filtering/resume).''] \<rparr>)
         else
           (let w1 = w\<lparr> trace := trace w @ [Print (queued_line e self1)] \<rparr>;
                self2 = self1\<lparr> start_time := Some (time_time e (checked self1)) \<rparr>
            in if concurrency self2 = 1
               then (case seq_loop e self2 (w1\<lparr> trace := trace w1 @ [OpenSession] \<rparr>) names' of
                       (Inl ex, self', w') \<Rightarrow> (Raises ex, self', w')
                     | (Inr u, self', w') \<Rightarrow> (Returns, self', w'))
               else if concurrency self2 < 0
               then (Raises (Exception ''ValueError''), self2, w1)
               else pool_loop e self2 (w1\<lparr> trace := trace w1 @ [OpenSession] \<rparr>)
                      (drop (nat (concurrency self2)) names')
                      (take (nat (concurrency self2)) names') False 0))"

definition run_from_custom_file ::
  "env \<Rightarrow> world \<Rightarrow> int \<Rightarrow> int \<Rightarrow> real \<Rightarrow> bool \<Rightarrow> run_result \<times> world" where
  "run_from_custom_file e w max_checks concurrency' delay' resume =
     (case custom_txt w of
        None \<Rightarrow>
          (Returns,
           w\<lparr> custom_txt := Some [],
              trace := trace w
                @ [Print ''[!] Created Custom.txt - put one username per line and re-run.''] \<rparr>)
      | Some lines \<Rightarrow>
          (let raw = map strip (filter (\<lambda>ln. strip ln \<noteq> []) lines)
           in if raw = []
              then (Returns, w\<lparr> trace := trace w @ [Print ''[!] No names in Custom.txt.''] \<rparr>)
              else
                (let checker = SteamChecker_init 12 2 delay' concurrency'
                 in case run_check_list e checker w raw max_checks resume of
                      (res, self', w') \<Rightarrow> (res, w'))))"

section \<open>Vocabulary of the properties\<close>

text \<open>Attempt \<open>i\<close> of the check of a name returns an outcome whose status is unknown.\<close>

definition unknown_at :: "(nat \<Rightarrow> string \<Rightarrow> get_result) \<Rightarrow> string \<Rightarrow> nat \<Rightarrow> bool" where
  "unknown_at session name i =
     (case fst (check_once (session i) name) of Inl ex \<Rightarrow> False | Inr oc \<Rightarrow> fst oc = ''unknown'')"

text \<open>
  The trace of attempts \<open>a\<close> to \<open>k\<close>: each attempt before the last is followed by a
  sleep, the first of \<open>base\<close> seconds and each later one twice as long.
\<close>

definition backoff_trace :: "string \<Rightarrow> real \<Rightarrow> nat \<Rightarrow> nat \<Rightarrow> event list" where
  "backoff_trace name base a k =
     concat (map (\<lambda>i. [HttpGet (CHECK_URL name), Sleep (base * 2 ^ (i - a))]) [a..<k])
       @ [HttpGet (CHECK_URL name)]"

text \<open>
  A raw name normalised: lower case, surrounding white space stripped, every character
  outside \<open>[a-z0-9]\<close> removed.
\<close>

definition normalise :: "string \<Rightarrow> string" where
  "normalise n = filter (\<lambda>c. c \<in> set ''abcdefghijklmnopqrstuvwxyz0123456789'') (strip (lower n))"

text \<open>
  The rows of the result store (none when the file is missing), the user names the
  program reads from it, and the relation between the world before and after some
  checks: rows were appended for the names \<open>recorded\<close>, each of five fields, events
  were appended to the trace, and every request among them is for one of the names
  \<open>cand\<close>.
\<close>

definition records :: "world \<Rightarrow> string list list" where
  "records w = (case results_csv w of None \<Rightarrow> [] | Some rows \<Rightarrow> rows)"

definition seen_names :: "world \<Rightarrow> string set" where
  "seen_names w = load_seen_from_csv (read_csv (results_csv w))"

definition extends_by :: "world \<Rightarrow> world \<Rightarrow> string list \<Rightarrow> string set \<Rightarrow> bool" where
  "extends_by w w' recorded cand \<longleftrightarrow>
     (\<exists>new evs. records w' = records w @ new \<and> map hd new = recorded \<and>
        (\<forall>row \<in> set new. length row = 5) \<and>
        trace w' = trace w @ evs \<and> (\<forall>u. HttpGet u \<in> set evs \<longrightarrow> u \<in> CHECK_URL ` cand))"

section \<open>Example environments\<close>

text \<open>A network whose first two answers are connection errors and whose third is a
  redirect to a profile.\<close>

definition flaky :: "nat \<Rightarrow> string \<Rightarrow> get_result" where
  "flaky attempt u =
     (if attempt < 3 then GetRaises (Exception ''ClientConnectorError'')
      else GetOk \<lparr> url = ''https://steamcommunity.com/profiles/7/'', status = 200,
                     resp_text = Inr [] \<rparr>)"

text \<open>A store that records the name \<open>abc\<close>, and a list of raw names.\<close>

definition store_abc :: world where
  "store_abc =
     \<lparr> results_csv = Some [header, [''abc'', ''taken'', ''200'', ''2024-01-01 00:00:00'', ''profile_markers'']],
       available_txt = Some [], custom_txt = Some [], trace = [] \<rparr>"

definition raw_names :: "string list" where
  "raw_names = [''ab'', ''abc'', ''A1-B2 c3d4 '', ''Xyz9'', ''hello'']"

text \<open>
  An environment: the name \<open>abc\<close> redirects to a profile and every other name gives a
  page saying that the profile could not be found; the clock advances two seconds per
  check; \<open>gmtime\<close> accepts the times from 0 on. Its float formatting is that of the
  delay 0.0, the only delay it is used with.
\<close>

definition two_digits :: "nat \<Rightarrow> string" where
  "two_digits k = (if k < 10 then CHR ''0'' # str_nat k else str_nat k)"

definition hms :: "nat \<Rightarrow> string" where
  "hms n = two_digits ((n div 3600) mod 24) @ '':'' @ two_digits ((n div 60) mod 60)
             @ '':'' @ two_digits (n mod 60)"

definition demo_env :: env where
  "demo_env =
     \<lparr> http_get = (\<lambda>k attempt u.
          if u = CHECK_URL ''abc''
          then GetOk \<lparr> url = ''https://steamcommunity.com/profiles/7/'', status = 200,
                        resp_text = Inr [] \<rparr>
          else GetOk \<lparr> url = u, status = 200,
                        resp_text = Inr ''The specified profile could not be found.'' \<rparr>),
       now_ts = (\<lambda>k. ''2024-01-01 00:00:00''),
       time_time = (\<lambda>k. 100 + 2 * real k),
       strftime_gmtime = (\<lambda>t. if 0 \<le> t then Inr (hms (nat \<lfloor>t\<rfloor>)) else Inl (Exception ''OSError'')),
       str_float = (\<lambda>d. ''0.0''),
       pick = (\<lambda>step. 0) \<rparr>"

definition empty_store :: world where
  "empty_store = \<lparr> results_csv = Some [header], available_txt = Some [], custom_txt = Some [], trace = [] \<rparr>"

text \<open>Worlds without and with a blank \<open>Custom.txt\<close>.\<close>

definition no_custom :: world where
  "no_custom = \<lparr> results_csv = Some [header], available_txt = Some [], custom_txt = None, trace = [] \<rparr>"

definition blank_custom :: world where
  "blank_custom = \<lparr> results_csv = Some [header], available_txt = Some [],
                     custom_txt = Some [[], ''   ''], trace = [] \<rparr>"

section \<open>Classification\<close>

text \<open>
  C1. A response whose final URL contains \<open>/profiles/\<close> is classified taken with note
  \<open>redirect_to_profiles\<close> and the response's status code, whatever the body is (readable
  or not, with or without the phrase "could not be found") and whatever the name.
\<close>

theorem redirect_first_priority:
  "str_in ''/profiles/'' (url resp) \<Longrightarrow> session (CHECK_URL name) = GetOk resp \<Longrightarrow>
   fst (check_once session name) = Inr (''taken'', Some (status resp), ''redirect_to_profiles'')"
  by (simp add: check_once_def)


theorem redirect_first_priority_witness:
  "str_in ''/profiles/'' ''https://steamcommunity.com/profiles/7/'' \<and>
   fst (check_once
          (\<lambda>u. GetOk \<lparr> url = ''https://steamcommunity.com/profiles/7/'', status = 200,
                        resp_text = Inr ''The specified profile could not be found.'' \<rparr>)
          ''abcd'')
     = Inr (''taken'', Some 200, ''redirect_to_profiles'')"
  using redirect_first_priority
    [of "\<lparr> url = ''https://steamcommunity.com/profiles/7/'', status = 200,
           resp_text = Inr ''The specified profile could not be found.'' \<rparr>"
        "\<lambda>u. GetOk \<lparr> url = ''https://steamcommunity.com/profiles/7/'', status = 200,
                        resp_text = Inr ''The specified profile could not be found.'' \<rparr>"
        "''abcd''"]
  by simp

section \<open>Failures of one attempt\<close>

text \<open>
  C4, as stated, fails: an exception other than a cancellation that is raised while the
  body is read, here a timeout, does not give the note \<open>exception:TimeoutError\<close> without
  a status code, but the note \<open>unicode_error\<close> with the status code.
\<close>

theorem body_read_failure_counterexample:
  "fst (check_once
          (\<lambda>u. GetOk \<lparr> url = ''https://steamcommunity.com/id/abc/'', status = 200,
                        resp_text = Inl (Exception ''TimeoutError'') \<rparr>)
          ''abc'')
     = Inr (''unknown'', Some 200, ''unicode_error'') \<and>
   fst (check_once
          (\<lambda>u. GetOk \<lparr> url = ''https://steamcommunity.com/id/abc/'', status = 200,
                        resp_text = Inl (Exception ''TimeoutError'') \<rparr>)
          ''abc'')
     \<noteq> Inr (''unknown'', None, ''exception:TimeoutError'')"
  by (simp add: check_once_def)

text \<open>
  C4, amended. An exception other than a cancellation that the request raises gives
  the outcome unknown, without status code, with note \<open>exception:<kind>\<close>; one that the
  reading of the body raises, whatever its kind, gives the outcome unknown with the
  status code and note \<open>unicode_error\<close>; an exception leaves the attempt exactly when
  the request or the reading of the body is cancelled, and it is the cancellation.
\<close>

theorem check_once_contains_failures:
  "(session (CHECK_URL name) = GetRaises (Exception kind) \<longrightarrow>
      fst (check_once session name) = Inr (''unknown'', None, ''exception:'' @ kind)) \<and>
   (session (CHECK_URL name) = GetOk resp \<and> \<not> str_in ''/profiles/'' (url resp)
      \<and> resp_text resp = Inl (Exception kind) \<longrightarrow>
      fst (check_once session name) = Inr (''unknown'', Some (status resp), ''unicode_error'')) \<and>
   (fst (check_once session name) = Inl ex \<longleftrightarrow>
      ex = CancelledError \<and>
      (session (CHECK_URL name) = GetRaises CancelledError \<or>
       (\<exists>resp. session (CHECK_URL name) = GetOk resp \<and> \<not> str_in ''/profiles/'' (url resp)
                \<and> resp_text resp = Inl CancelledError)))"
  by (auto simp: check_once_def Let_def split: get_result.splits exn.splits sum.splits)

theorem check_once_contains_failures_witness:
  "fst (check_once (\<lambda>u. GetRaises (Exception ''ClientConnectorError'')) ''abc'')
     = Inr (''unknown'', None, ''exception:ClientConnectorError'') \<and>
   fst (check_once
          (\<lambda>u. GetOk \<lparr> url = ''https://steamcommunity.com/id/abc/'', status = 200,
                        resp_text = Inl (Exception ''UnicodeDecodeError'') \<rparr>)
          ''abc'')
     = Inr (''unknown'', Some 200, ''unicode_error'') \<and>
   fst (check_once (\<lambda>u. GetRaises CancelledError) ''abc'') = Inl CancelledError"
  using check_once_contains_failures
     [of "\<lambda>u. GetRaises (Exception ''ClientConnectorError'')" "''abc''"
         "''ClientConnectorError''"
         "\<lparr> url = [], status = 0, resp_text = Inr [] \<rparr>" CancelledError]
    check_once_contains_failures
     [of "\<lambda>u. GetOk \<lparr> url = ''https://steamcommunity.com/id/abc/'', status = 200,
                        resp_text = Inl (Exception ''UnicodeDecodeError'') \<rparr>" "''abc''"
         "''UnicodeDecodeError''"
         "\<lparr> url = ''https://steamcommunity.com/id/abc/'', status = 200,
                        resp_text = Inl (Exception ''UnicodeDecodeError'') \<rparr>" CancelledError]
    check_once_contains_failures
     [of "\<lambda>u. GetRaises CancelledError" "''abc''" "''x''"
         "\<lparr> url = [], status = 0, resp_text = Inr [] \<rparr>" CancelledError]
  by simp

section \<open>Retries\<close>

lemma snd_check_once: "snd (check_once s name) = [HttpGet (CHECK_URL name)]"
  by (simp add: check_once_def Let_def)

lemma backoff_trace_step:
  assumes "a < k"
  shows "backoff_trace name b a k = HttpGet (CHECK_URL name) # Sleep b # backoff_trace name (b * 2) (Suc a) k"
proof -
  have eq: "map (\<lambda>i. [HttpGet (CHECK_URL name), Sleep (b * 2 ^ (i - a))]) [Suc a..<k]
      = map (\<lambda>i. [HttpGet (CHECK_URL name), Sleep (b * 2 * 2 ^ (i - Suc a))]) [Suc a..<k]"
  proof (rule map_cong[OF refl])
    fix i assume "i \<in> set [Suc a..<k]"
    then have "i - a = Suc (i - Suc a)" by auto
    then show "[HttpGet (CHECK_URL name), Sleep (b * 2 ^ (i - a))]
             = [HttpGet (CHECK_URL name), Sleep (b * 2 * 2 ^ (i - Suc a))]"
      by simp
  qed
  show ?thesis
    unfolding backoff_trace_def upt_conv_Cons[OF assms] eq[symmetric] by simp
qed

lemma retry_loop_stops:
  assumes "0 < n" and "int (a + n) = r + 2"
  shows "\<exists>k. a \<le> k \<and> k < a + n \<and>
      retry_loop session r name [a..<a + n] b l0
        = (fst (check_once (session k) name), backoff_trace name b a k) \<and>
      (\<forall>i. a \<le> i \<and> i < k \<longrightarrow> unknown_at session name i) \<and>
      (k + 1 = a + n \<or> \<not> unknown_at session name k)"
  using assms
proof (induction n arbitrary: a b l0)
  case 0
  then show ?case by simp
next
  case (Suc n)
  have list: "[a..<a + Suc n] = a # [Suc a..<Suc a + n]"
    by (simp add: upt_conv_Cons)
  obtain res where co: "check_once (session a) name = (res, [HttpGet (CHECK_URL name)])"
    using snd_check_once[of "session a" name] by (cases "check_once (session a) name") simp
  show ?case
  proof (cases "unknown_at session name a")
    case False
    then have "retry_loop session r name [a..<a + Suc n] b l0 = (res, [HttpGet (CHECK_URL name)])"
      using co unfolding list by (auto simp: unknown_at_def split: sum.splits)
    then show ?thesis
      using False co by (intro exI[of _ a]) (auto simp: backoff_trace_def)
  next
    case True
    then obtain oc where oc: "res = Inr oc" "fst oc = ''unknown''"
      using co by (auto simp: unknown_at_def split: sum.splits)
    show ?thesis
    proof (cases "n = 0")
      case True
      with Suc.prems have "\<not> int a \<le> r" by simp
      then have "retry_loop session r name [a..<a + Suc n] b l0 = (res, [HttpGet (CHECK_URL name)])"
        using co oc True unfolding list by simp
      then show ?thesis
        using co True by (intro exI[of _ a]) (auto simp: backoff_trace_def)
    next
      case False
      with Suc.prems have le: "int a \<le> r" by simp
      from False Suc.prems have "0 < n" "int (Suc a + n) = r + 2" by simp_all
      from Suc.IH[OF this, of "b * 2" oc]
      obtain k where k: "Suc a \<le> k" "k < Suc a + n"
        "retry_loop session r name [Suc a..<Suc a + n] (b * 2) oc
           = (fst (check_once (session k) name), backoff_trace name (b * 2) (Suc a) k)"
        "\<forall>i. Suc a \<le> i \<and> i < k \<longrightarrow> unknown_at session name i"
        "k + 1 = Suc a + n \<or> \<not> unknown_at session name k"
        by blast
      have "retry_loop session r name [a..<a + Suc n] b l0
          = (fst (check_once (session k) name),
             HttpGet (CHECK_URL name) # Sleep b # backoff_trace name (b * 2) (Suc a) k)"
        using co oc le k(3) unfolding list by simp
      moreover have "backoff_trace name b a k
          = HttpGet (CHECK_URL name) # Sleep b # backoff_trace name (b * 2) (Suc a) k"
        using k(1) by (intro backoff_trace_step) simp
      moreover have "\<forall>i. a \<le> i \<and> i < k \<longrightarrow> unknown_at session name i"
      proof (intro allI impI)
        fix i assume "a \<le> i \<and> i < k"
        then consider "i = a" | "Suc a \<le> i \<and> i < k" by force
        then show "unknown_at session name i"
          using True k(4) by cases auto
      qed
      ultimately show ?thesis
        using k(1,2,5) by (intro exI[of _ k]) simp
    qed
  qed
qed

lemma requests_pairs:
  "length (filter is_get (concat (map (\<lambda>i. [HttpGet u, Sleep (f i)]) xs))) = length xs"
  by (induction xs) simp_all

lemma sleeps_pairs:
  "concat (map sleep_of (concat (map (\<lambda>i. [HttpGet u, Sleep (f i)]) xs))) = map f xs"
  by (induction xs) simp_all

lemma requests_backoff_trace: "requests (backoff_trace name b a k) = k - a + 1"
  by (simp add: backoff_trace_def requests_def requests_pairs)

lemma sleeps_backoff_trace:
  "sleeps (backoff_trace name b a k) = map (\<lambda>i. b * 2 ^ (i - a)) [a..<k]"
  by (simp add: backoff_trace_def sleeps_def sleeps_pairs)


text \<open>
  C3. With a retry count of at least 0 the wrapper stops at some attempt \<open>k\<close> between 1
  and \<open>retries + 1\<close>: it makes exactly \<open>k\<close> requests; every attempt before \<open>k\<close> returned
  unknown; attempt \<open>k\<close> is the first that did not return unknown, or else it is attempt
  \<open>retries + 1\<close>; the result is that of attempt \<open>k\<close>; between two attempts it sleeps,
  0.6 seconds at first and twice as long each time, and not after the last attempt; and
  no exception leaves it but a cancellation.
\<close>

theorem retries_bounded_backoff:
  assumes "0 \<le> retries self"
  shows "\<exists>k. 1 \<le> k \<and> k \<le> nat (retries self) + 1 \<and>
     fst (check_with_retries session self name) = fst (check_once (session k) name) \<and>
     snd (check_with_retries session self name) = backoff_trace name (6 / 10) 1 k \<and>
     requests (snd (check_with_retries session self name)) = k \<and>
     sleeps (snd (check_with_retries session self name))
       = map (\<lambda>i. 6 / 10 * 2 ^ (i - 1)) [1..<k] \<and>
     (\<forall>i. 1 \<le> i \<and> i < k \<longrightarrow> unknown_at session name i) \<and>
     (k = nat (retries self) + 1 \<or> \<not> unknown_at session name k) \<and>
     (\<forall>ex. fst (check_with_retries session self name) = Inl ex \<longrightarrow> ex = CancelledError)"
proof -
  let ?r = "retries self"
  from assms have n: "0 < nat ?r + 1" "int (1 + (nat ?r + 1)) = ?r + 2" "nat (?r + 2) = 1 + (nat ?r + 1)"
    by simp_all
  from retry_loop_stops[OF n(1,2), of session name "6 / 10" "(''unknown'', None, ''no_attempt'')"]
  obtain k where k: "1 \<le> k" "k < 1 + (nat ?r + 1)"
    "check_with_retries session self name
       = (fst (check_once (session k) name), backoff_trace name (6 / 10) 1 k)"
    "\<forall>i. 1 \<le> i \<and> i < k \<longrightarrow> unknown_at session name i"
    "k + 1 = 1 + (nat ?r + 1) \<or> \<not> unknown_at session name k"
    unfolding check_with_retries_def n(3) by blast
  have "ex = CancelledError" if "fst (check_once (session k) name) = Inl ex" for ex
    using that by (auto simp: check_once_def Let_def split: get_result.splits exn.splits sum.splits if_splits)
  with k show ?thesis
    by (intro exI[of _ k]) (auto simp: requests_backoff_trace sleeps_backoff_trace)
qed

theorem retries_bounded_backoff_witness:
  "0 \<le> retries (SteamChecker_init 12 2 0 1) \<and>
   (\<exists>k. 1 \<le> k \<and> k \<le> nat (retries (SteamChecker_init 12 2 0 1)) + 1 \<and>
     fst (check_with_retries flaky (SteamChecker_init 12 2 0 1) ''abc'')
       = fst (check_once (flaky k) ''abc'') \<and>
     snd (check_with_retries flaky (SteamChecker_init 12 2 0 1) ''abc'')
       = backoff_trace ''abc'' (6 / 10) 1 k \<and>
     requests (snd (check_with_retries flaky (SteamChecker_init 12 2 0 1) ''abc'')) = k \<and>
     sleeps (snd (check_with_retries flaky (SteamChecker_init 12 2 0 1) ''abc''))
       = map (\<lambda>i. 6 / 10 * 2 ^ (i - 1)) [1..<k] \<and>
     (\<forall>i. 1 \<le> i \<and> i < k \<longrightarrow> unknown_at flaky ''abc'' i) \<and>
     (k = nat (retries (SteamChecker_init 12 2 0 1)) + 1 \<or> \<not> unknown_at flaky ''abc'' k) \<and>
     (\<forall>ex. fst (check_with_retries flaky (SteamChecker_init 12 2 0 1) ''abc'') = Inl ex
        \<longrightarrow> ex = CancelledError))"
proof -
  have h: "0 \<le> retries (SteamChecker_init 12 2 0 1)"
    by (simp add: SteamChecker_init_def)
  from h retries_bounded_backoff[OF h, of flaky "''abc''"]
  show ?thesis by blast
qed

section \<open>The constructor\<close>

text \<open>
  C10. Whatever the arguments of the constructor, the checker it builds has a retry
  count of at least 0, a delay of at least 0 and a concurrency of at least 1, so its
  concurrency is 1 (sequential mode) or greater (pooled mode), and its retry wrapper
  makes at least one request.
\<close>

theorem init_clamps:
  "0 \<le> retries (SteamChecker_init t r d c) \<and>
   0 \<le> delay (SteamChecker_init t r d c) \<and>
   1 \<le> concurrency (SteamChecker_init t r d c) \<and>
   (concurrency (SteamChecker_init t r d c) = 1 \<or> 1 < concurrency (SteamChecker_init t r d c)) \<and>
   1 \<le> requests (snd (check_with_retries session (SteamChecker_init t r d c) name))"
proof -
  let ?s = "SteamChecker_init t r d c"
  have r: "0 \<le> retries ?s"
    by (simp add: SteamChecker_init_def)
  then have n: "0 < nat (retries ?s) + 1" "int (1 + (nat (retries ?s) + 1)) = retries ?s + 2"
     "nat (retries ?s + 2) = 1 + (nat (retries ?s) + 1)"
    by simp_all
  from retry_loop_stops[OF n(1,2), of session name "6 / 10" "(''unknown'', None, ''no_attempt'')"]
  obtain k where "1 \<le> k" "snd (check_with_retries session ?s name) = backoff_trace name (6 / 10) 1 k"
    unfolding check_with_retries_def n(3) by force
  then have "1 \<le> requests (snd (check_with_retries session ?s name))"
    by (simp add: requests_backoff_trace)
  moreover have "0 \<le> delay ?s" "1 \<le> concurrency ?s"
    by (simp_all add: SteamChecker_init_def)
  ultimately show ?thesis
    using r by auto
qed


section \<open>Sanitising and filtering\<close>

lemma allowed_codes:
  "list_all (\<lambda>n. char_of n \<in> set ''abcdefghijklmnopqrstuvwxyz0123456789'') ([97..<123] @ [48..<58])"
  by code_simp

lemma allowed_char_iff:
  "allowed_char c \<longleftrightarrow> c \<in> set ''abcdefghijklmnopqrstuvwxyz0123456789''"
proof
  assume "c \<in> set ''abcdefghijklmnopqrstuvwxyz0123456789''"
  then show "allowed_char c"
    by (auto simp: allowed_char_def)
next
  assume a: "allowed_char c"
  define n where "n = (of_char c :: nat)"
  have c: "c = char_of n" by (simp add: n_def)
  from a have "n \<in> {97..<123} \<union> {48..<58}"
    by (auto simp: allowed_char_def n_def Let_def)
  then have "n \<in> set ([97..<123] @ [48..<58])"
    by (simp only: set_append set_upt)
  with allowed_codes show "c \<in> set ''abcdefghijklmnopqrstuvwxyz0123456789''"
    unfolding c list_all_iff by blast
qed

lemma newline_not_allowed: "\<not> allowed_char (CHR 0x0A)"
  by (simp add: allowed_char_def)

lemma ALLOWED_RE_match_filter:
  "ALLOWED_RE_match (filter allowed_char s) \<longleftrightarrow> filter allowed_char s \<noteq> []"
proof (cases "filter allowed_char s = []")
  case True
  then show ?thesis by (simp add: ALLOWED_RE_match_def)
next
  case False
  then have "last (filter allowed_char s) \<in> set (filter allowed_char s)"
    by (rule last_in_set)
  then have "last (filter allowed_char s) \<noteq> CHR 0x0A"
    using newline_not_allowed by auto
  with False show ?thesis
    by (simp add: ALLOWED_RE_match_def list_all_iff)
qed

lemma normalise_code: "normalise n = re_sub_disallowed (strip (lower n))"
  by (simp add: normalise_def re_sub_disallowed_def allowed_char_iff[symmetric] del: set_simps)

lemma strip_Nil: "strip [] = []"
  by (simp add: strip_def)

lemma sanitize_eq: "sanitize names = filter (\<lambda>n. 2 < length n) (map normalise names)"
proof (induction names)
  case Nil
  show ?case by (simp add: sanitize_def)
next
  case (Cons n names)
  have tail: "sanitize (n # names) = (if n \<noteq> [] \<and> 2 < length (normalise n) then [normalise n] else []) @ sanitize names"
    by (auto simp: sanitize_def Let_def normalise_code re_sub_disallowed_def ALLOWED_RE_match_filter)
  have "\<not> 2 < length (normalise [])"
    by (simp add: normalise_code re_sub_disallowed_def lower_def strip_Nil)
  then show ?case
    unfolding tail Cons.IH by (cases "n = []") auto
qed


lemma row_get_username:
  assumes "row \<noteq> []"
  shows "row_get header row ''username'' = Some (hd row)"
proof -
  from assms obtain a as where row: "row = a # as"
    by (cases row) auto
  have "map_of (rev (zip [''status'', ''http_status'', ''timestamp'', ''note''] as)) ''username'' = None"
    by (auto simp: map_of_eq_None_iff dest!: set_zip_leftD)
  moreover have "''username'' \<notin> set (drop (length as) [''status'', ''http_status'', ''timestamp'', ''note''])"
    by (auto dest!: in_set_dropD)
  ultimately show ?thesis
    by (simp add: row_get_def header_def row map_add_def)
qed

lemma seen_of_header_rows:
  "set (seen_of_rows (header # rows))
     = {strip (hd row) | row. row \<in> set rows \<and> row \<noteq> [] \<and> strip (hd row) \<noteq> []}"
  by (auto simp: seen_of_rows_def Let_def row_get_username)

text \<open>
  C2. The names \<open>run_check_list\<close> keeps are the normalised raw names longer than 2
  that, under resume, are not among the user names read from the result store, cut to
  the first \<open>max_checks\<close> of them when \<open>max_checks\<close> is positive. Each consists of
  characters of \<open>[a-z0-9]\<close> only, is non-empty and longer than 2; they stand in the order
  of the raw names; under resume none of them is in the store. For a store that begins
  with the header row, the user names read from it are the stripped non-empty first
  fields of its rows.
\<close>

theorem sanitize_filter:
  fixes w :: world and names :: "string list" and max_checks :: int and resume :: bool
  defines "seen \<equiv> load_seen_from_csv (read_csv (results_csv w))"
    and "out \<equiv> filter_names w names max_checks resume"
  shows "out = (let kept = filter (\<lambda>n. 2 < length n \<and> \<not> (resume \<and> n \<in> seen)) (map normalise names)
                in if 0 < max_checks then take (nat max_checks) kept else kept) \<and>
         (\<forall>n \<in> set out. n \<noteq> [] \<and> 2 < length n \<and>
            set n \<subseteq> set ''abcdefghijklmnopqrstuvwxyz0123456789'') \<and>
         subseq out (map normalise names) \<and>
         (resume \<longrightarrow> set out \<inter> seen = {}) \<and>
         (\<forall>rows. results_csv w = Some (header # rows) \<longrightarrow>
            seen = {strip (hd row) | row. row \<in> set rows \<and> row \<noteq> [] \<and> strip (hd row) \<noteq> []})"
proof -
  let ?kept = "filter (\<lambda>n. 2 < length n \<and> \<not> (resume \<and> n \<in> seen)) (map normalise names)"
  have kept: "(if resume then filter (\<lambda>n. n \<notin> seen) (sanitize names) else sanitize names) = ?kept"
    by (auto simp: sanitize_eq intro: filter_cong)
  have out: "out = (if 0 < max_checks then take (nat max_checks) ?kept else ?kept)"
    unfolding out_def filter_names_def Let_def seen_def[symmetric] kept by simp
  have sub: "set out \<subseteq> set ?kept"
    unfolding out by (auto dest: in_set_takeD)
  have shape: "n \<noteq> [] \<and> 2 < length n \<and> set n \<subseteq> set ''abcdefghijklmnopqrstuvwxyz0123456789''"
    if "n \<in> set out" for n
  proof -
    from that sub obtain m where "n = normalise m" "2 < length n"
      by auto
    then show ?thesis
      unfolding normalise_def by (auto simp del: set_simps)
  qed
  have "subseq (take (nat max_checks) ?kept) ?kept"
    by (rule prefix_imp_subseq[OF take_is_prefix])
  then have "subseq out ?kept"
    unfolding out by simp
  then have order: "subseq out (map normalise names)"
    by (rule subseq_order.trans) simp
  have fresh: "set out \<inter> seen = {}" if resume
    using sub that by auto
  have store: "seen = {strip (hd row) | row. row \<in> set rows \<and> row \<noteq> [] \<and> strip (hd row) \<noteq> []}"
    if "results_csv w = Some (header # rows)" for rows
    unfolding seen_def that read_csv_def by (simp add: load_seen_from_csv_def seen_of_header_rows)
  from out shape order fresh store show ?thesis
    unfolding Let_def by blast
qed


theorem sanitize_filter_witness:
  "filter_names store_abc raw_names 2 True = [''a1b2c3d4'', ''xyz9''] \<and>
   subseq [''a1b2c3d4'', ''xyz9''] (map normalise raw_names) \<and>
   set [''a1b2c3d4'', ''xyz9''] \<inter> load_seen_from_csv (read_csv (results_csv store_abc)) = {}"
proof -
  have ev: "filter_names store_abc raw_names 2 True = [''a1b2c3d4'', ''xyz9'']"
    by code_simp
  from sanitize_filter[of store_abc raw_names 2 True]
  have "subseq (filter_names store_abc raw_names 2 True) (map normalise raw_names)"
    and "set (filter_names store_abc raw_names 2 True)
           \<inter> load_seen_from_csv (read_csv (results_csv store_abc)) = {}"
    by blast+
  then show ?thesis
    unfolding ev by (simp only: ev simp_thms)
qed


section \<open>Recording a result\<close>

lemma write_result_files:
  "results_csv (write_result e self w u st hs note)
     = append_to (results_csv w) [u, st, (case hs of None \<Rightarrow> [] | Some c \<Rightarrow> str_int c),
                                  now_ts e (checked self), note]"
  "available_txt (write_result e self w u st hs note)
     = (if st = ''available'' then append_to (available_txt w) u else available_txt w)"
  "custom_txt (write_result e self w u st hs note) = custom_txt w"
  "trace (write_result e self w u st hs note) = trace w"
  by (simp_all add: write_result_def Let_def)

lemma handle_name_raises:
  assumes "check_with_retries (http_get e (checked self)) self name = (Inl ex, evs)"
  shows "handle_name e self w name = (Inl ex, self, w\<lparr> trace := trace w @ evs \<rparr>)"
  using assms by (simp add: handle_name_def)

lemma handle_name_resolves:
  assumes "check_with_retries (http_get e (checked self)) self name = (Inr (st, hs, note), evs)"
  shows "results_csv (snd (snd (handle_name e self w name)))
           = append_to (results_csv w) [name, st, (case hs of None \<Rightarrow> [] | Some c \<Rightarrow> str_int c),
                                        now_ts e (checked self + 1), note]"
    and "available_txt (snd (snd (handle_name e self w name)))
           = (if st = ''available'' then append_to (available_txt w) name else available_txt w)"
    and "custom_txt (snd (snd (handle_name e self w name))) = custom_txt w"
    and "checked (fst (snd (handle_name e self w name))) = checked self + 1"
    and "total_to_check (fst (snd (handle_name e self w name))) = total_to_check self"
  unfolding handle_name_def assms
  by (simp_all add: Let_def write_result_files split: prod.splits sum.splits)


text \<open>
  C6. The loop body, which the sequential loop and the worker share: when the check of
  a name resolves to an outcome, exactly one row, of the five fields user name, status,
  status code (empty when there is none), time stamp and note, is appended to the
  result store, and the name is appended as one line to the available list exactly
  when the status is \<open>available\<close>; nothing else is written. When a cancellation
  leaves the check, no file changes.
\<close>

theorem one_record_per_check:
  "(fst (check_with_retries (http_get e (checked self)) self name) = Inr (st, hs, note) \<longrightarrow>
      results_csv (snd (snd (handle_name e self w name)))
        = Some ((case results_csv w of None \<Rightarrow> [] | Some rows \<Rightarrow> rows)
                @ [[name, st, (case hs of None \<Rightarrow> [] | Some c \<Rightarrow> str_int c),
                    now_ts e (checked self + 1), note]]) \<and>
      available_txt (snd (snd (handle_name e self w name)))
        = (if st = ''available''
           then Some ((case available_txt w of None \<Rightarrow> [] | Some ls \<Rightarrow> ls) @ [name])
           else available_txt w) \<and>
      custom_txt (snd (snd (handle_name e self w name))) = custom_txt w) \<and>
   (fst (check_with_retries (http_get e (checked self)) self name) = Inl ex \<longrightarrow>
      results_csv (snd (snd (handle_name e self w name))) = results_csv w \<and>
      available_txt (snd (snd (handle_name e self w name))) = available_txt w \<and>
      custom_txt (snd (snd (handle_name e self w name))) = custom_txt w)"
proof (intro conjI impI)
  assume "fst (check_with_retries (http_get e (checked self)) self name) = Inl ex"
  then obtain evs where "check_with_retries (http_get e (checked self)) self name = (Inl ex, evs)"
    by (cases "check_with_retries (http_get e (checked self)) self name") simp
  from handle_name_raises[OF this, of w]
  show "results_csv (snd (snd (handle_name e self w name))) = results_csv w"
    and "available_txt (snd (snd (handle_name e self w name))) = available_txt w"
    and "custom_txt (snd (snd (handle_name e self w name))) = custom_txt w"
    by simp_all
next
  assume "fst (check_with_retries (http_get e (checked self)) self name) = Inr (st, hs, note)"
  then obtain evs where
    "check_with_retries (http_get e (checked self)) self name = (Inr (st, hs, note), evs)"
    by (cases "check_with_retries (http_get e (checked self)) self name") simp
  note r = handle_name_resolves[OF this, of w]
  show "results_csv (snd (snd (handle_name e self w name)))
        = Some ((case results_csv w of None \<Rightarrow> [] | Some rows \<Rightarrow> rows)
                @ [[name, st, (case hs of None \<Rightarrow> [] | Some c \<Rightarrow> str_int c),
                    now_ts e (checked self + 1), note]])"
    unfolding r(1) by (simp add: append_to_def split: option.splits)
  show "available_txt (snd (snd (handle_name e self w name)))
        = (if st = ''available''
           then Some ((case available_txt w of None \<Rightarrow> [] | Some ls \<Rightarrow> ls) @ [name])
           else available_txt w)"
    unfolding r(2) by (simp add: append_to_def split: option.splits)
  show "custom_txt (snd (snd (handle_name e self w name))) = custom_txt w"
    by (rule r(3))
qed

theorem one_record_per_check_witness:
  "fst (check_with_retries (http_get demo_env 0) (SteamChecker_init 12 2 0 1) ''a1b2c3d4'')
     = Inr (''available'', Some 200, ''not_found_text'') \<and>
   results_csv (snd (snd (handle_name demo_env (SteamChecker_init 12 2 0 1) empty_store ''a1b2c3d4'')))
     = Some [header, [''a1b2c3d4'', ''available'', ''200'', ''2024-01-01 00:00:00'', ''not_found_text'']] \<and>
   available_txt (snd (snd (handle_name demo_env (SteamChecker_init 12 2 0 1) empty_store ''a1b2c3d4'')))
     = Some [''a1b2c3d4'']"
proof -
  have c: "fst (check_with_retries (http_get demo_env 0) (SteamChecker_init 12 2 0 1) ''a1b2c3d4'')
     = Inr (''available'', Some 200, ''not_found_text'')"
    by code_simp
  have k: "checked (SteamChecker_init 12 2 0 1) = 0"
    by (simp add: SteamChecker_init_def)
  have s: "str_int 200 = ''200''" by code_simp
  from c one_record_per_check[of demo_env "SteamChecker_init 12 2 0 1" "''a1b2c3d4''"
      "''available''" "Some 200" "''not_found_text''" empty_store CancelledError]
  show ?thesis
    unfolding k by (simp add: empty_store_def demo_env_def s)
qed

section \<open>The progress report\<close>

lemma update_title_silent:
  assumes "start_time self = Some st"
    and "strftime_gmtime e (time_time e (checked self) - st) = Inr a"
    and "strftime_gmtime e ((time_time e (checked self) - st) / real (max 1 (checked self))
           * real_of_int (max 0 (int (total_to_check self) - int (checked self)))) = Inr b"
  shows "update_title e self = (Inr (), [])"
  using assms by (simp add: update_title_def Let_def)

text \<open>
  C7. After a completed check (1 of 2 checked, 2 seconds elapsed) the report computes
  the remaining time and emits nothing: the status line is printed only in the
  \<open>except\<close> branch, which a computation that succeeds never enters.
\<close>

theorem update_title_prints_nothing:
  "update_title demo_env
     ((SteamChecker_init 12 2 0 1)\<lparr> checked := 1, total_to_check := 2, start_time := Some 100 \<rparr>)
   = (Inr (), [])"
  by (simp add: update_title_def demo_env_def SteamChecker_init_def)

section \<open>Runs that check nothing\<close>

text \<open>
  C8. When no name is left after sanitising, resume and the limit, the run prints that
  there is nothing to check and returns: no session is opened, no request is made and
  no file changes.
\<close>

theorem nothing_to_check:
  assumes "filter_names w names max_checks resume = []"
  shows "run_check_list e self w names max_checks resume
     = (Returns, self\<lparr> total_to_check := 0 \<rparr>,
        w\<lparr> trace := trace w @ [Print ''[!] No names to check (after filtering/resume).''] \<rparr>)"
  using assms by (simp add: run_check_list_def)

theorem nothing_to_check_witness:
  "filter_names store_abc [''ab'', ''ABC'', '' - ''] 0 True = [] \<and>
   run_check_list demo_env (SteamChecker_init 12 2 0 1) store_abc [''ab'', ''ABC'', '' - ''] 0 True
     = (Returns, (SteamChecker_init 12 2 0 1)\<lparr> total_to_check := 0 \<rparr>,
        store_abc\<lparr> trace := trace store_abc
                     @ [Print ''[!] No names to check (after filtering/resume).''] \<rparr>)"
proof -
  have h: "filter_names store_abc [''ab'', ''ABC'', '' - ''] 0 True = []"
    by code_simp
  from h nothing_to_check[OF h, of demo_env "SteamChecker_init 12 2 0 1"]
  show ?thesis by (simp only: simp_thms)
qed

text \<open>
  C9. Without \<open>Custom.txt\<close> the run creates it empty, tells the user to fill it, and
  returns; with a \<open>Custom.txt\<close> all of whose lines are empty after stripping it reports
  that there are no names and returns. In both cases nothing is checked and nothing
  else changes.
\<close>

theorem custom_file_missing_or_empty:
  "(custom_txt w = None \<longrightarrow>
      run_from_custom_file e w max_checks c d resume
        = (Returns,
           w\<lparr> custom_txt := Some [],
              trace := trace w
                @ [Print ''[!] Created Custom.txt - put one username per line and re-run.''] \<rparr>)) \<and>
   (custom_txt w = Some lines \<and> (\<forall>ln \<in> set lines. strip ln = []) \<longrightarrow>
      run_from_custom_file e w max_checks c d resume
        = (Returns, w\<lparr> trace := trace w @ [Print ''[!] No names in Custom.txt.''] \<rparr>))"
proof (intro conjI impI)
  assume "custom_txt w = None"
  then show "run_from_custom_file e w max_checks c d resume
        = (Returns,
           w\<lparr> custom_txt := Some [],
              trace := trace w
                @ [Print ''[!] Created Custom.txt - put one username per line and re-run.''] \<rparr>)"
    by (simp add: run_from_custom_file_def)
next
  assume a: "custom_txt w = Some lines \<and> (\<forall>ln \<in> set lines. strip ln = [])"
  then have "filter (\<lambda>ln. strip ln \<noteq> []) lines = []"
    by (simp add: filter_empty_conv)
  with a show "run_from_custom_file e w max_checks c d resume
        = (Returns, w\<lparr> trace := trace w @ [Print ''[!] No names in Custom.txt.''] \<rparr>)"
    by (simp add: run_from_custom_file_def)
qed

theorem custom_file_missing_or_empty_witness:
  "run_from_custom_file demo_env no_custom 0 1 0 True
     = (Returns,
        \<lparr> results_csv = Some [header], available_txt = Some [], custom_txt = Some [],
          trace = [Print ''[!] Created Custom.txt - put one username per line and re-run.''] \<rparr>) \<and>
   run_from_custom_file demo_env blank_custom 0 1 0 True
     = (Returns,
        \<lparr> results_csv = Some [header], available_txt = Some [],
          custom_txt = Some [[], ''   ''], trace = [Print ''[!] No names in Custom.txt.''] \<rparr>)"
proof -
  have s: "\<forall>ln \<in> set [[], ''   '']. strip ln = []"
    by (simp add: strip_def isspace_def)
  from s custom_file_missing_or_empty[of no_custom demo_env 0 1 0 True "[]"]
    custom_file_missing_or_empty[of blank_custom demo_env 0 1 0 True "[[], ''   '']"]
  show ?thesis
    by (simp add: no_custom_def blank_custom_def)
qed


section \<open>The history of the result store\<close>

lemma extends_by_refl: "extends_by w w [] cand"
  unfolding extends_by_def by (intro exI[of _ "[]"]) simp

lemma extends_by_trans:
  assumes "extends_by w w1 r1 c1" and "extends_by w1 w2 r2 c2" and "c1 \<subseteq> c" and "c2 \<subseteq> c"
  shows "extends_by w w2 (r1 @ r2) c"
proof -
  from assms(1) obtain n1 e1 where 1: "records w1 = records w @ n1" "map hd n1 = r1"
    "\<forall>row \<in> set n1. length row = 5" "trace w1 = trace w @ e1"
    "\<forall>u. HttpGet u \<in> set e1 \<longrightarrow> u \<in> CHECK_URL ` c1"
    unfolding extends_by_def by (elim exE conjE)
  from assms(2) obtain n2 e2 where 2: "records w2 = records w1 @ n2" "map hd n2 = r2"
    "\<forall>row \<in> set n2. length row = 5" "trace w2 = trace w1 @ e2"
    "\<forall>u. HttpGet u \<in> set e2 \<longrightarrow> u \<in> CHECK_URL ` c2"
    unfolding extends_by_def by (elim exE conjE)
  have gets: "u \<in> CHECK_URL ` c" if "HttpGet u \<in> set (e1 @ e2)" for u
  proof -
    from that have "HttpGet u \<in> set e1 \<or> HttpGet u \<in> set e2"
      by simp
    then have "u \<in> CHECK_URL ` c1 \<or> u \<in> CHECK_URL ` c2"
      using 1(5) 2(5) by blast
    moreover have "CHECK_URL ` c1 \<subseteq> CHECK_URL ` c" "CHECK_URL ` c2 \<subseteq> CHECK_URL ` c"
      using assms(3,4) by (simp_all add: image_mono)
    ultimately show ?thesis by blast
  qed
  have rows: "\<forall>row \<in> set (n1 @ n2). length row = 5"
    using 1(3) 2(3) by (simp add: ball_Un)
  have "records w2 = records w @ (n1 @ n2)" "map hd (n1 @ n2) = r1 @ r2"
       "trace w2 = trace w @ (e1 @ e2)"
    by (simp_all add: 1(1,2,4) 2(1,2,4))
  with rows gets show ?thesis
    unfolding extends_by_def by blast
qed

lemma retry_loop_gets:
  "HttpGet u \<in> set (snd (retry_loop session r name as b l0)) \<Longrightarrow> u = CHECK_URL name"
proof (induction as arbitrary: b l0)
  case Nil
  then show ?case by simp
next
  case (Cons a as)
  obtain res where co: "check_once (session a) name = (res, [HttpGet (CHECK_URL name)])"
    using snd_check_once[of "session a" name] by (cases "check_once (session a) name") simp
  show ?case
  proof (cases res)
    case (Inl ex)
    with Cons.prems co show ?thesis by simp
  next
    case (Inr oc)
    show ?thesis
    proof (cases "fst oc \<noteq> ''unknown''")
      case True
      with Cons.prems co Inr show ?thesis by simp
    next
      case False
      show ?thesis
      proof (cases "int a \<le> r")
        case True
        obtain res' evs' where rl: "retry_loop session r name as (b * 2) oc = (res', evs')"
          by (cases "retry_loop session r name as (b * 2) oc")
        with Cons.prems co Inr False True
        have "u = CHECK_URL name \<or> HttpGet u \<in> set evs'" by auto
        with Cons.IH[of "b * 2" oc] rl show ?thesis by auto
      next
        case nle: False
        obtain res' evs' where rl: "retry_loop session r name as b oc = (res', evs')"
          by (cases "retry_loop session r name as b oc")
        with Cons.prems co Inr False nle
        have "u = CHECK_URL name \<or> HttpGet u \<in> set evs'" by auto
        with Cons.IH[of b oc] rl show ?thesis by auto
      qed
    qed
  qed
qed

lemma check_with_retries_gets:
  "HttpGet u \<in> set (snd (check_with_retries session self name)) \<Longrightarrow> u = CHECK_URL name"
  unfolding check_with_retries_def by (rule retry_loop_gets)

lemma update_title_no_get: "HttpGet u \<notin> set (snd (update_title e self))"
  by (auto simp: update_title_def Let_def split: option.splits sum.splits exn.splits)

lemma records_write_result:
  "records (write_result e self w u st hs note)
     = records w @ [[u, st, (case hs of None \<Rightarrow> [] | Some c \<Rightarrow> str_int c), now_ts e (checked self), note]]"
  by (simp add: records_def write_result_files append_to_def split: option.splits)

lemma records_trace_update: "records (w\<lparr> trace := t \<rparr>) = records w"
  by (simp add: records_def)

lemma handle_name_world:
  assumes "check_with_retries (http_get e (checked self)) self name = (Inr (st, hs, nt), evs)"
  shows "\<exists>(self2 :: checker) evs'.
     records (snd (snd (handle_name e self w name)))
       = records w @ [[name, st, (case hs of None \<Rightarrow> [] | Some c \<Rightarrow> str_int c),
                       now_ts e (checked self2), nt]] \<and>
     trace (snd (snd (handle_name e self w name))) = trace w @ evs @ evs' \<and>
     (\<forall>u. HttpGet u \<notin> set evs')"
proof -
  define self2 where "self2 = (if st = ''available''
      then (self\<lparr>checked := checked self + 1\<rparr>)\<lparr>available := available (self\<lparr>checked := checked self + 1\<rparr>) + 1\<rparr>
      else self\<lparr>checked := checked self + 1\<rparr>)"
  define line where "line = (if st = ''available''
                       then progress_prefix self2 @ ''AVAILABLE: '' @ name
                       else if st = ''taken''
                       then progress_prefix self2 @ ''taken: '' @ name
                       else progress_prefix self2 @ ''unknown/error: '' @ name
                              @ '' ('' @ nt @ '')'')"
  define w2 where "w2 = write_result e self2 (w\<lparr> trace := trace w @ evs @ [Print line] \<rparr>) name st hs nt"
  obtain res2 evs2 where ut: "update_title e self2 = (res2, evs2)"
    by (cases "update_title e self2")
  have ng: "HttpGet u \<notin> set evs2" for u
    using update_title_no_get[of u e self2] ut by simp
  have hn: "handle_name e self w name =
      (case update_title e self2 of
         (Inl ex, evs2) \<Rightarrow> (Inl ex, self2, w2\<lparr> trace := trace w2 @ evs2 \<rparr>)
       | (Inr u, evs2) \<Rightarrow>
           (Inr (), self2,
            w2\<lparr> trace := trace w2 @ evs2 @ (if delay self2 \<noteq> 0 then [Sleep (delay self2)] else []) \<rparr>))"
    unfolding handle_name_def assms self2_def line_def w2_def Let_def prod.case sum.case
    by (rule refl)
  have w2r: "records w2 = records w @ [[name, st, (case hs of None \<Rightarrow> [] | Some c \<Rightarrow> str_int c),
                       now_ts e (checked self2), nt]]"
    unfolding w2_def records_write_result records_trace_update by (rule refl)
  have w2t: "trace w2 = trace w @ evs @ [Print line]"
    unfolding w2_def by (simp add: write_result_files)
  show ?thesis
  proof (cases res2)
    case (Inl ex)
    then have "snd (snd (handle_name e self w name)) = w2\<lparr> trace := trace w2 @ evs2 \<rparr>"
      unfolding hn ut by simp
    then show ?thesis
      using w2r w2t ng
      by (intro exI[of _ self2] exI[of _ "Print line # evs2"]) (simp add: records_trace_update)
  next
    case (Inr u)
    then have "snd (snd (handle_name e self w name))
        = w2\<lparr> trace := trace w2 @ evs2 @ (if delay self2 \<noteq> 0 then [Sleep (delay self2)] else []) \<rparr>"
      unfolding hn ut by simp
    then show ?thesis
      using w2r w2t ng
      by (intro exI[of _ self2]
            exI[of _ "Print line # evs2 @ (if delay self2 \<noteq> 0 then [Sleep (delay self2)] else [])"])
         (simp add: records_trace_update)
  qed
qed

lemma handle_name_extends:
  "\<exists>recorded. extends_by w (snd (snd (handle_name e self w name))) recorded {name} \<and>
     (recorded = [name] \<or> (recorded = [] \<and> fst (handle_name e self w name) \<noteq> Inr ()))"
proof (cases "check_with_retries (http_get e (checked self)) self name")
  case (Pair res evs)
  have gets: "\<forall>u. HttpGet u \<in> set evs \<longrightarrow> u = CHECK_URL name"
    using check_with_retries_gets[of _ "http_get e (checked self)" self name] Pair by simp
  show ?thesis
  proof (cases res)
    case (Inl ex)
    with Pair have h: "handle_name e self w name = (Inl ex, self, w\<lparr> trace := trace w @ evs \<rparr>)"
      by (simp add: handle_name_raises)
    have "extends_by w (w\<lparr> trace := trace w @ evs \<rparr>) [] {name}"
      unfolding extends_by_def using gets by (simp add: records_def)
    with h show ?thesis by (intro exI[of _ "[]"]) simp
  next
    case (Inr oc)
    obtain st hs nt where oc: "oc = (st, hs, nt)" by (cases oc) auto
    from handle_name_world[OF Pair[unfolded Inr oc], of w]
    obtain self2 :: checker and evs' where r: "records (snd (snd (handle_name e self w name)))
            = records w @ [[name, st, (case hs of None \<Rightarrow> [] | Some c \<Rightarrow> str_int c), now_ts e (checked self2), nt]]"
       "trace (snd (snd (handle_name e self w name))) = trace w @ evs @ evs'"
       "\<forall>u. HttpGet u \<notin> set evs'"
      by blast
    have "extends_by w (snd (snd (handle_name e self w name))) [name] {name}"
      unfolding extends_by_def using r gets
      by (intro exI[of _ "[[name, st, (case hs of None \<Rightarrow> [] | Some c \<Rightarrow> str_int c), now_ts e (checked self2), nt]]"]
                exI[of _ "evs @ evs'"]) auto
    then show ?thesis by blast
  qed
qed


lemma extends_by_quiet:
  assumes "records w' = records w" and "trace w' = trace w @ evs"
    and "\<forall>u. HttpGet u \<notin> set evs"
  shows "extends_by w w' [] cand"
  unfolding extends_by_def using assms
  by (intro exI[of _ "[]"] exI[of _ evs]) simp

lemma seq_loop_extends:
  "\<exists>recorded. extends_by w (snd (snd (seq_loop e self w names))) recorded (set names) \<and>
     prefix recorded names \<and>
     (fst (seq_loop e self w names) = Inr () \<longrightarrow> recorded = names)"
proof (induction names arbitrary: self w)
  case Nil
  show ?case
    using extends_by_refl[of w "{}"] by (intro exI[of _ "[]"]) simp
next
  case (Cons name names)
  obtain res self1 w1 where hn: "handle_name e self w name = (res, self1, w1)"
    by (cases "handle_name e self w name")
  from handle_name_extends[of w e self name] hn
  obtain rec1 where rec1: "extends_by w w1 rec1 {name}"
    "rec1 = [name] \<or> (rec1 = [] \<and> res \<noteq> Inr ())"
    by auto
  show ?case
  proof (cases res)
    case (Inl ex)
    then have sl: "seq_loop e self w (name # names) = (Inl ex, self1, w1)"
      using hn by simp
    have "extends_by w w1 (rec1 @ []) (set (name # names))"
      by (rule extends_by_trans[OF rec1(1) extends_by_refl[of w1 "{}"]]) simp_all
    moreover have "prefix rec1 (name # names)"
      using rec1(2) by auto
    ultimately show ?thesis
      unfolding sl by (intro exI[of _ rec1]) simp
  next
    case (Inr u)
    then have sl: "seq_loop e self w (name # names) = seq_loop e self1 w1 names"
      using hn by simp
    from Inr rec1(2) have r1: "rec1 = [name]"
      by auto
    from Cons.IH[of w1 self1] obtain rec2 where rec2:
      "extends_by w1 (snd (snd (seq_loop e self1 w1 names))) rec2 (set names)"
      "prefix rec2 names"
      "fst (seq_loop e self1 w1 names) = Inr () \<longrightarrow> rec2 = names"
      by blast
    have "extends_by w (snd (snd (seq_loop e self1 w1 names))) (rec1 @ rec2) (set (name # names))"
      by (rule extends_by_trans[OF rec1(1) rec2(1)]) auto
    then show ?thesis
      unfolding sl r1 using rec2(2,3) by (intro exI[of _ "name # rec2"]) simp
  qed
qed

lemma mset_remove_nth:
  assumes "i < length xs"
  shows "add_mset (xs ! i) (mset (remove_nth i xs)) = mset xs"
proof -
  have "mset xs = mset (take i xs @ xs ! i # drop (Suc i) xs)"
    using id_take_nth_drop[OF assms] by simp
  then show ?thesis
    by (simp add: remove_nth_def)
qed

lemma set_remove_nth: "set (remove_nth i xs) \<subseteq> set xs"
  unfolding remove_nth_def by (auto dest: in_set_takeD in_set_dropD)

lemma mset_update_queue:
  assumes "i < length xs"
  shows "add_mset (xs ! i) (mset (xs[i := n] @ q)) = mset (xs @ n # q)"
proof -
  have "xs ! i \<in># mset xs"
    using assms by simp
  then show ?thesis
    by (simp add: mset_update[OF assms])
qed

lemma pool_loop_extends:
  "\<exists>recorded.
     extends_by w (snd (snd (pool_loop e self w queue inflight died step))) recorded
       (set (inflight @ queue)) \<and>
     mset recorded \<subseteq># mset (inflight @ queue) \<and>
     (fst (pool_loop e self w queue inflight died step) = Returns \<longrightarrow>
        \<not> died \<and> mset recorded = mset (inflight @ queue))"
proof (induction e self w queue inflight died step rule: pool_loop.induct)
  case (1 e self w queue inflight died step)
  show ?case
  proof (cases "inflight = []")
    case True
    have pl: "pool_loop e self w queue inflight died step
        = ((if died then Hangs else if queue = [] then Returns else Hangs), self, w)"
      by (subst pool_loop.simps) (simp add: True)
    show ?thesis
      unfolding pl using extends_by_refl[of w "set (inflight @ queue)"] True
      by (intro exI[of _ "[]"]) simp
  next
    case False
    define i where "i = pick e step mod length inflight"
    have i: "i < length inflight"
      using False by (simp add: i_def)
    define name where "name = inflight ! i"
    have name_in: "name \<in> set inflight"
      using i by (simp add: name_def)
    obtain res self1 w1 where hn: "handle_name e self w name = (res, self1, w1)"
      by (cases "handle_name e self w name")
    from handle_name_extends[of w e self name] hn
    obtain rec1 where rec1: "extends_by w w1 rec1 {name}"
      "rec1 = [name] \<or> (rec1 = [] \<and> res \<noteq> Inr ())"
      by auto
    have sub1: "mset rec1 \<subseteq># {#name#}"
      using rec1(2) by auto
    show ?thesis
    proof (cases res)
      case (Inl ex)
      have pl: "pool_loop e self w queue inflight died step
          = pool_loop e self1 w1 queue (remove_nth i inflight) True (Suc step)"
        by (subst pool_loop.simps) (simp add: False i_def[symmetric] name_def[symmetric] hn Inl)
      from "1.IH"(1)[OF False i_def, of res "(self1, w1)" ex self1 w1] hn Inl
      obtain rec2 where rec2:
        "extends_by w1 (snd (snd (pool_loop e self1 w1 queue (remove_nth i inflight) True (Suc step))))
           rec2 (set (remove_nth i inflight @ queue))"
        "mset rec2 \<subseteq># mset (remove_nth i inflight @ queue)"
        "fst (pool_loop e self1 w1 queue (remove_nth i inflight) True (Suc step)) \<noteq> Returns"
        unfolding name_def by auto
      have "extends_by w (snd (snd (pool_loop e self1 w1 queue (remove_nth i inflight) True (Suc step))))
              (rec1 @ rec2) (set (inflight @ queue))"
        using name_in set_remove_nth[of i inflight]
        by (intro extends_by_trans[OF rec1(1) rec2(1)]) auto
      moreover have "mset (rec1 @ rec2) \<subseteq># mset (inflight @ queue)"
      proof -
        have "mset rec1 + mset rec2 \<subseteq># {#name#} + mset (remove_nth i inflight @ queue)"
          by (rule subset_mset.add_mono[OF sub1 rec2(2)])
        also have "\<dots> = mset (inflight @ queue)"
          using mset_remove_nth[OF i] by (simp add: name_def)
        finally show ?thesis by simp
      qed
      ultimately show ?thesis
        unfolding pl using rec2(3) by (intro exI[of _ "rec1 @ rec2"]) simp
    next
      case (Inr u)
      with rec1(2) have r1: "rec1 = [name]"
        by auto
      show ?thesis
      proof (cases queue)
        case Nil
        have pl: "pool_loop e self w queue inflight died step
            = pool_loop e self1 w1 [] (remove_nth i inflight) died (Suc step)"
          by (subst pool_loop.simps)
             (simp add: False i_def[symmetric] name_def[symmetric] hn Inr Nil)
        from "1.IH"(2)[OF False i_def, of res "(self1, w1)" u self1 w1] hn Inr Nil
        obtain rec2 where rec2:
          "extends_by w1 (snd (snd (pool_loop e self1 w1 [] (remove_nth i inflight) died (Suc step))))
             rec2 (set (remove_nth i inflight @ []))"
          "mset rec2 \<subseteq># mset (remove_nth i inflight @ [])"
          "fst (pool_loop e self1 w1 [] (remove_nth i inflight) died (Suc step)) = Returns \<longrightarrow>
             \<not> died \<and> mset rec2 = mset (remove_nth i inflight @ [])"
          unfolding name_def by auto
        have "extends_by w (snd (snd (pool_loop e self1 w1 [] (remove_nth i inflight) died (Suc step))))
                (rec1 @ rec2) (set (inflight @ queue))"
          using name_in set_remove_nth[of i inflight]
          by (intro extends_by_trans[OF rec1(1) rec2(1)]) auto
        moreover have eq: "add_mset name (mset (remove_nth i inflight)) = mset (inflight @ queue)"
          using mset_remove_nth[OF i] by (simp add: name_def Nil)
        moreover have "mset (rec1 @ rec2) \<subseteq># mset (inflight @ queue)"
          using rec2(2) unfolding eq[symmetric] r1 by simp
        ultimately show ?thesis
          unfolding pl using rec2(3) r1 by (intro exI[of _ "rec1 @ rec2"]) auto
      next
        case (Cons n queue')
        have pl: "pool_loop e self w queue inflight died step
            = pool_loop e self1 w1 queue' (inflight[i := n]) died (Suc step)"
          by (subst pool_loop.simps)
             (simp add: False i_def[symmetric] name_def[symmetric] hn Inr Cons)
        from "1.IH"(3)[OF False i_def, of res "(self1, w1)" u self1 w1 n queue'] hn Inr Cons
        obtain rec2 where rec2:
          "extends_by w1 (snd (snd (pool_loop e self1 w1 queue' (inflight[i := n]) died (Suc step))))
             rec2 (set (inflight[i := n] @ queue'))"
          "mset rec2 \<subseteq># mset (inflight[i := n] @ queue')"
          "fst (pool_loop e self1 w1 queue' (inflight[i := n]) died (Suc step)) = Returns \<longrightarrow>
             \<not> died \<and> mset rec2 = mset (inflight[i := n] @ queue')"
          unfolding name_def by auto
        have "set (inflight[i := n]) \<subseteq> insert n (set inflight)"
          by (rule set_update_subset_insert)
        then have "extends_by w (snd (snd (pool_loop e self1 w1 queue' (inflight[i := n]) died (Suc step))))
                (rec1 @ rec2) (set (inflight @ queue))"
          using name_in Cons
          by (intro extends_by_trans[OF rec1(1) rec2(1)]) auto
        moreover have eq: "add_mset name (mset (inflight[i := n] @ queue')) = mset (inflight @ queue)"
          using mset_update_queue[OF i, of n queue'] by (simp add: name_def Cons)
        moreover have "mset (rec1 @ rec2) \<subseteq># mset (inflight @ queue)"
          using rec2(2) unfolding eq[symmetric] r1 by simp
        ultimately show ?thesis
          unfolding pl using rec2(3) r1 by (intro exI[of _ "rec1 @ rec2"]) auto
      qed
    qed
  qed
qed


lemma strip_id:
  assumes "\<forall>c \<in> set n. \<not> isspace c"
  shows "strip n = n"
proof (cases "n = []")
  case True
  then show ?thesis by (simp add: strip_def)
next
  case False
  then have "hd n \<in> set n" "last n \<in> set n"
    by simp_all
  with assms have h: "\<not> isspace (hd n)" "\<not> isspace (last n)"
    by blast+
  have "dropWhile isspace n = n"
    using h(1) by (simp add: dropWhile_eq_self_iff)
  moreover have "dropWhile isspace (rev n) = rev n"
    using h(2) False by (simp add: dropWhile_eq_self_iff hd_rev)
  ultimately show ?thesis
    by (simp add: strip_def)
qed

lemma allowed_not_space: "allowed_char c \<Longrightarrow> \<not> isspace c"
  by (auto simp: allowed_char_def isspace_def Let_def)

lemma filter_names_clean:
  assumes "n \<in> set (filter_names w names max_checks resume)"
  shows "n \<noteq> [] \<and> strip n = n"
proof -
  from assms have "n \<in> set (sanitize names)"
    unfolding filter_names_def Let_def by (auto dest: in_set_takeD split: if_splits)
  then obtain x where n: "n = normalise x" "2 < length n"
    unfolding sanitize_eq by auto
  have "\<forall>c \<in> set n. \<not> isspace c"
    unfolding n(1) normalise_code re_sub_disallowed_def using allowed_not_space by auto
  then have "strip n = n"
    by (rule strip_id)
  with n(2) show ?thesis by auto
qed

lemma filter_names_fresh:
  assumes "n \<in> set (filter_names w names max_checks True)"
  shows "n \<notin> seen_names w"
  using assms unfolding filter_names_def Let_def seen_names_def
  by (auto dest: in_set_takeD split: if_splits)

lemma seen_names_records: "seen_names w = set (seen_of_rows (records w))"
  by (simp add: seen_names_def records_def read_csv_def load_seen_from_csv_def seen_of_rows_def
           split: option.splits)

lemma seen_of_rows_append: "set (seen_of_rows rows) \<subseteq> set (seen_of_rows (rows @ new))"
  by (cases rows) (auto simp: seen_of_rows_def)


lemma ensure_files_store:
  "results_csv (ensure_files w)
     = Some (case results_csv w of None \<Rightarrow> [header] | Some rows \<Rightarrow> rows)"
  by (simp add: ensure_files_def split: option.splits)

lemma run_check_list_extends:
  fixes e self w names max_checks resume
  defines "cands \<equiv> filter_names w names max_checks resume"
    and "r \<equiv> run_check_list e self w names max_checks resume"
  shows "\<exists>recorded. extends_by w (snd (snd r)) recorded (set cands) \<and>
     mset recorded \<subseteq># mset cands \<and>
     (fst r = Returns \<longrightarrow> mset recorded = mset cands) \<and>
     (concurrency self = 1 \<longrightarrow> prefix recorded cands)"
proof (cases "cands = []")
  case True
  then have "r = (Returns, self\<lparr> total_to_check := 0 \<rparr>,
        w\<lparr> trace := trace w @ [Print ''[!] No names to check (after filtering/resume).''] \<rparr>)"
    unfolding r_def cands_def by (simp add: run_check_list_def)
  then have "extends_by w (snd (snd r)) [] (set cands)"
    by (intro extends_by_quiet[of _ _ "[Print ''[!] No names to check (after filtering/resume).'']"])
       (simp_all add: records_def)
  then show ?thesis
    using True by (intro exI[of _ "[]"]) simp
next
  case False
  define self1 where "self1 = self\<lparr> total_to_check := length cands \<rparr>"
  define self2 where "self2 = self1\<lparr> start_time := Some (time_time e (checked self1)) \<rparr>"
  define w1 where "w1 = w\<lparr> trace := trace w @ [Print (queued_line e self1)] \<rparr>"
  define w2 where "w2 = w1\<lparr> trace := trace w1 @ [OpenSession] \<rparr>"
  have c2: "concurrency self2 = concurrency self"
    by (simp add: self2_def self1_def)
  have rdef: "r = (if concurrency self = 1
               then (case seq_loop e self2 w2 cands of
                       (Inl ex, self', w') \<Rightarrow> (Raises ex, self', w')
                     | (Inr u, self', w') \<Rightarrow> (Returns, self', w'))
               else if concurrency self < 0
               then (Raises (Exception ''ValueError''), self2, w1)
               else pool_loop e self2 w2
                      (drop (nat (concurrency self)) cands)
                      (take (nat (concurrency self)) cands) False 0)"
    using False unfolding r_def run_check_list_def cands_def[symmetric] Let_def
      self1_def[symmetric] self2_def[symmetric] w1_def[symmetric] w2_def[symmetric] c2
    by (simp add: self1_def)
  have q1: "extends_by w w1 [] (set cands)"
    by (intro extends_by_quiet[of _ _ "[Print (queued_line e self1)]"])
       (simp_all add: w1_def records_def)
  have q12: "extends_by w1 w2 [] (set cands)"
    by (intro extends_by_quiet[of _ _ "[OpenSession]"])
       (simp_all add: w2_def records_def)
  have q2: "extends_by w w2 [] (set cands)"
    using extends_by_trans[OF q1 q12, of "set cands"] by simp
  show ?thesis
  proof (cases "concurrency self = 1")
    case True
    obtain res self' w' where sl: "seq_loop e self2 w2 cands = (res, self', w')"
      by (cases "seq_loop e self2 w2 cands")
    from seq_loop_extends[of w2 e self2 cands] sl
    obtain rec2 where rec2: "extends_by w2 w' rec2 (set cands)" "prefix rec2 cands"
      "res = Inr () \<longrightarrow> rec2 = cands"
      by auto
    have w': "snd (snd r) = w'" and res: "fst r = Returns \<longleftrightarrow> res = Inr ()"
      unfolding rdef using True sl by (cases res; simp)+
    have "extends_by w w' ([] @ rec2) (set cands)"
      by (rule extends_by_trans[OF q2 rec2(1)]) simp_all
    moreover have "mset rec2 \<subseteq># mset cands"
      using rec2(2) by (auto simp: prefix_def)
    ultimately show ?thesis
      unfolding w' res using rec2(2,3) by (intro exI[of _ rec2]) simp
  next
    case nseq: False
    show ?thesis
    proof (cases "concurrency self < 0")
      case True
      with nseq have "r = (Raises (Exception ''ValueError''), self2, w1)"
        unfolding rdef by simp
      with q1 nseq show ?thesis
        by (intro exI[of _ "[]"]) simp
    next
      case False
      define k where "k = nat (concurrency self)"
      from False nseq have rp: "r = pool_loop e self2 w2 (drop k cands) (take k cands) False 0"
        unfolding rdef k_def by simp
      from pool_loop_extends[of w2 e self2 "drop k cands" "take k cands" False 0]
      obtain rec2 where rec2: "extends_by w2 (snd (snd r)) rec2 (set cands)"
        "mset rec2 \<subseteq># mset cands" "fst r = Returns \<longrightarrow> mset rec2 = mset cands"
        unfolding rp[symmetric] by auto
      have "extends_by w (snd (snd r)) ([] @ rec2) (set cands)"
        by (rule extends_by_trans[OF q2 rec2(1)]) simp_all
      with rec2(2,3) nseq show ?thesis
        by (intro exI[of _ rec2]) simp
    qed
  qed
qed

text \<open>
  C5, as stated, fails: a run under resume that starts from the empty store (the header
  row only) with the candidate \<open>abc\<close> given twice returns after checking it twice, and
  leaves two records with the same user name. The names are compared with the store as
  it was when the run began, not with one another.
\<close>

theorem duplicate_candidates_counterexample:
  "fst (run_check_list demo_env (SteamChecker_init 12 2 0 1) empty_store [''abc'', ''abc''] 0 True)
     = Returns \<and>
   results_csv (snd (snd (run_check_list demo_env (SteamChecker_init 12 2 0 1) empty_store
                            [''abc'', ''abc''] 0 True)))
     = Some [header,
             [''abc'', ''taken'', ''200'', ''2024-01-01 00:00:00'', ''redirect_to_profiles''],
             [''abc'', ''taken'', ''200'', ''2024-01-01 00:00:00'', ''redirect_to_profiles'']]"
  by code_simp

text \<open>
  C5, amended. A run under resume appends rows to the result store and changes no row:
  each new row has five fields and the user name of a candidate, and candidates and
  requests are only for names that were not among the user names of the store when the
  run began. The new rows are at most one per candidate (in sequential mode, in the
  order of the candidates), and when the run returns exactly one per candidate: \<open>N\<close>
  candidates give \<open>N\<close> records, whose user names are free of duplicates exactly when
  the candidates are. The user names read from the store never decrease, and when the
  store began with the header row, every name recorded by the run is among them
  afterwards, so a later run under resume skips it.
\<close>

theorem resume_history:
  fixes e self w names max_checks
  defines "cands \<equiv> filter_names w names max_checks True"
    and "r \<equiv> run_check_list e self w names max_checks True"
  shows "\<exists>new evs.
     records (snd (snd r)) = records w @ new \<and>
     trace (snd (snd r)) = trace w @ evs \<and>
     (\<forall>u. HttpGet u \<in> set evs \<longrightarrow> (\<exists>n \<in> set cands. u = CHECK_URL n)) \<and>
     set cands \<inter> seen_names w = {} \<and>
     (\<forall>row \<in> set new. length row = 5 \<and> hd row \<in> set cands) \<and>
     mset (map hd new) \<subseteq># mset cands \<and>
     (concurrency self = 1 \<longrightarrow> prefix (map hd new) cands) \<and>
     (fst r = Returns \<longrightarrow>
        length new = length cands \<and> mset (map hd new) = mset cands \<and>
        (distinct (map hd new) \<longleftrightarrow> distinct cands)) \<and>
     seen_names w \<subseteq> seen_names (snd (snd r)) \<and>
     ((\<exists>rows. results_csv w = Some (header # rows)) \<longrightarrow>
        hd ` set new \<subseteq> seen_names (snd (snd r)))"
proof -
  from run_check_list_extends[of w e self names max_checks True]
  obtain recorded where rec: "extends_by w (snd (snd r)) recorded (set cands)"
    "mset recorded \<subseteq># mset cands" "fst r = Returns \<longrightarrow> mset recorded = mset cands"
    "concurrency self = 1 \<longrightarrow> prefix recorded cands"
    unfolding r_def cands_def by blast
  from rec(1) obtain new evs where ne: "records (snd (snd r)) = records w @ new"
    "map hd new = recorded" "\<forall>row \<in> set new. length row = 5"
    "trace (snd (snd r)) = trace w @ evs"
    "\<forall>u. HttpGet u \<in> set evs \<longrightarrow> u \<in> CHECK_URL ` set cands"
    unfolding extends_by_def by (elim exE conjE)
  have gets: "\<forall>u. HttpGet u \<in> set evs \<longrightarrow> (\<exists>n \<in> set cands. u = CHECK_URL n)"
    using ne(5) by blast
  have fresh: "set cands \<inter> seen_names w = {}"
    using filter_names_fresh[of _ w names max_checks] unfolding cands_def by blast
  have "set (map hd new) \<subseteq> set cands"
    using set_mset_mono[OF rec(2)] unfolding ne(2) by simp
  then have hd_in: "hd row \<in> set cands" if "row \<in> set new" for row
    using that by auto
  with ne(3) have rows: "\<forall>row \<in> set new. length row = 5 \<and> hd row \<in> set cands"
    by blast
  have full: "length new = length cands \<and> mset (map hd new) = mset cands \<and>
        (distinct (map hd new) \<longleftrightarrow> distinct cands)" if "fst r = Returns"
  proof -
    from that rec(3) have m: "mset (map hd new) = mset cands"
      unfolding ne(2) by blast
    from mset_eq_length[OF m] have "length new = length cands"
      by simp
    moreover from mset_eq_imp_distinct_iff[OF m] have "distinct (map hd new) \<longleftrightarrow> distinct cands" .
    ultimately show ?thesis
      using m by blast
  qed
  have mono: "seen_names w \<subseteq> seen_names (snd (snd r))"
    unfolding seen_names_records ne(1) by (rule seen_of_rows_append)
  have led: "hd ` set new \<subseteq> seen_names (snd (snd r))" if "results_csv w = Some (header # rows)" for rows
  proof
    fix n assume "n \<in> hd ` set new"
    then obtain row where row: "row \<in> set new" "n = hd row"
      by blast
    from row(1) ne(3) have "row \<noteq> []"
      by auto
    moreover from hd_in[OF row(1)] filter_names_clean[of "hd row" w names max_checks True]
    have "hd row \<noteq> [] \<and> strip (hd row) = hd row"
      unfolding cands_def by blast
    moreover have "records (snd (snd r)) = header # (rows @ new)"
      unfolding ne(1) using that by (simp add: records_def)
    ultimately show "n \<in> seen_names (snd (snd r))"
      unfolding seen_names_records row(2) using row(1)
      by (simp only: seen_of_header_rows) force
  qed
  from ne(1,2,4) gets fresh rows rec(2,4) full mono led show ?thesis
    unfolding ne(2)[symmetric]
    by (intro exI[of _ new] exI[of _ evs]) blast
qed

theorem resume_history_witness:
  "fst (run_check_list demo_env (SteamChecker_init 12 2 0 1) store_abc raw_names 0 True) = Returns \<and>
   filter_names store_abc raw_names 0 True = [''a1b2c3d4'', ''xyz9'', ''hello''] \<and>
   length (records (snd (snd (run_check_list demo_env (SteamChecker_init 12 2 0 1) store_abc
                                 raw_names 0 True))))
     = length (records store_abc) + 3 \<and>
   set [''a1b2c3d4'', ''xyz9'', ''hello'']
     \<subseteq> seen_names (snd (snd (run_check_list demo_env (SteamChecker_init 12 2 0 1) store_abc
                                  raw_names 0 True)))"
proof -
  let ?r = "run_check_list demo_env (SteamChecker_init 12 2 0 1) store_abc raw_names 0 True"
  have ret: "fst ?r = Returns"
    by code_simp
  have cands: "filter_names store_abc raw_names 0 True = [''a1b2c3d4'', ''xyz9'', ''hello'']"
    by code_simp
  have led: "\<exists>rows. results_csv store_abc = Some (header # rows)"
    by (simp add: store_abc_def)
  from resume_history[of demo_env "SteamChecker_init 12 2 0 1" store_abc raw_names 0]
  obtain new where new: "records (snd (snd ?r)) = records store_abc @ new"
    "fst ?r = Returns \<longrightarrow>
        length new = length (filter_names store_abc raw_names 0 True) \<and>
        mset (map hd new) = mset (filter_names store_abc raw_names 0 True) \<and>
        (distinct (map hd new) \<longleftrightarrow> distinct (filter_names store_abc raw_names 0 True))"
    "(\<exists>rows. results_csv store_abc = Some (header # rows)) \<longrightarrow>
        hd ` set new \<subseteq> seen_names (snd (snd ?r))"
    by (elim exE conjE)
  from new(2) ret have n: "length new = length (filter_names store_abc raw_names 0 True)"
    "mset (map hd new) = mset (filter_names store_abc raw_names 0 True)"
    by blast+
  from mset_eq_setD[OF n(2)] have "hd ` set new = set (filter_names store_abc raw_names 0 True)"
    by simp
  with new(3) led have "set (filter_names store_abc raw_names 0 True) \<subseteq> seen_names (snd (snd ?r))"
    by blast
  moreover have "length (records (snd (snd ?r))) = length (records store_abc) + 3"
    unfolding new(1) using n(1) by (simp add: cands)
  ultimately show ?thesis
    using ret cands by (simp only: cands simp_thms)
qed


end
